theory Spec2Isabelle
  imports Main "HOL-Library.Sublist"
begin

section \<open>The dataflow graph\<close>

text \<open>
  The planner of \<^verbatim>\<open>lms.py\<close> works on a TensorFlow graph through the graph editor
  library (imported as \<^verbatim>\<open>ge\<close>).  An operation is a Python object; its identity is the
  object, not its name.  Here the graph is the list of its operations in creation order
  and an operation is identified by its position in that list: new operations are
  appended, existing ones are updated in place, so a position never changes its meaning.
  A tensor is the pair of its producing operation and the output slot.
\<close>

type_synonym opid = nat
type_synonym tensor = "opid \<times> nat"

record node =
  op_name :: string
  op_type :: string
  op_inputs :: "tensor list"
  op_control_inputs :: "opid list"
  op_noutputs :: nat
  op_device :: string

type_synonym tfgraph = "node list"

subsection \<open>Python sets\<close>

text \<open>
  A Python \<^verbatim>\<open>set\<close> is a list without duplicates.  Python leaves the iteration order of
  a set open; the model iterates in insertion order, which is one of the orders the
  interpreter may choose.
\<close>

definition set_add :: "'a \<Rightarrow> 'a list \<Rightarrow> 'a list" where
  "set_add x xs = (if x \<in> set xs then xs else xs @ [x])"

definition set_union :: "'a list \<Rightarrow> 'a list \<Rightarrow> 'a list" where
  "set_union xs ys = xs @ filter (\<lambda>y. y \<notin> set xs) (remdups ys)"

definition set_diff :: "'a list \<Rightarrow> 'a list \<Rightarrow> 'a list" where
  "set_diff xs ys = filter (\<lambda>x. x \<notin> set ys) xs"

definition set_inter :: "'a list \<Rightarrow> 'a list \<Rightarrow> 'a list" where
  "set_inter xs ys = filter (\<lambda>x. x \<in> set ys) xs"

text \<open>\<^verbatim>\<open>sub in s\<close> on Python strings.\<close>

fun str_contains :: "string \<Rightarrow> string \<Rightarrow> bool" where
  "str_contains sub [] = (sub = [])"
| "str_contains sub (c # cs) = (prefix sub (c # cs) \<or> str_contains sub cs)"

subsection \<open>The graph editor's queries\<close>

text \<open>
  The graph editor and TensorFlow are libraries outside the repository; the definitions
  of this subsection and of the next follow their documented behaviour.

  \<^verbatim>\<open>ge.make_list_of_op(graph)\<close>, \<^verbatim>\<open>op.outputs\<close>, \<^verbatim>\<open>ge.util.get_consuming_ops(t)\<close>.
\<close>

definition make_list_of_op :: "tfgraph \<Rightarrow> opid list" where
  "make_list_of_op g = [0..<length g]"

definition outputs :: "tfgraph \<Rightarrow> opid \<Rightarrow> tensor list" where
  "outputs g p = map (Pair p) [0..<op_noutputs (g ! p)]"

definition get_consuming_ops :: "tfgraph \<Rightarrow> tensor \<Rightarrow> opid list" where
  "get_consuming_ops g t = filter (\<lambda>c. t \<in> set (op_inputs (g ! c))) [0..<length g]"

text \<open>The consumers of all outputs of an operation, as a set.\<close>

definition consumers_of_op :: "tfgraph \<Rightarrow> opid \<Rightarrow> opid list" where
  "consumers_of_op g p = remdups (concat (map (get_consuming_ops g) (outputs g p)))"

text \<open>
  The exceptions of the program: \<^verbatim>\<open>ValueError\<close> with its message, \<^verbatim>\<open>re.error\<close> of a string
  that is no regular expression, \<^verbatim>\<open>RecursionError\<close> when the depth of the recursion is used
  up, and \<open>Timeout\<close> when the fuel of a \<^verbatim>\<open>while\<close> loop is.
\<close>

datatype error = ValueError string | ReError | RecursionError | Timeout

text \<open>
  Python's module \<^verbatim>\<open>re\<close>, taken as it is: \<open>rx pattern\<close> is \<open>None\<close> where
  \<^verbatim>\<open>re.compile(pattern)\<close> raises \<^verbatim>\<open>re.error\<close>, and otherwise the test
  \<^verbatim>\<open>re.compile(pattern).search(string)\<close> finds a match.  Scopes and names are put into
  regular expressions by the program; what they match is what \<^verbatim>\<open>re\<close> says.
\<close>

type_synonym regex = "string \<Rightarrow> (string \<Rightarrow> bool) option"

text \<open>
  \<^verbatim>\<open>ge.filter_ops_from_regex(ops, regex)\<close>: the operations with a name in which the regular
  expression is found; and \<^verbatim>\<open>ge.get_name_scope_ops(ops, scope)\<close>, which is
  \<^verbatim>\<open>filter_ops_from_regex(ops, "^{}(/.*)?$".format(scope))\<close> after a trailing slash of the
  scope is dropped.
\<close>

definition filter_ops_from_regex :: "regex \<Rightarrow> tfgraph \<Rightarrow> opid list \<Rightarrow> string \<Rightarrow> error + opid list" where
  "filter_ops_from_regex rx g ops pattern =
     (case rx pattern of
        None \<Rightarrow> Inl ReError
      | Some search \<Rightarrow> Inr (filter (\<lambda>p. search (op_name (g ! p))) ops))"

definition name_scope_regex :: "string \<Rightarrow> string" where
  "name_scope_regex scope =
     (let sc = (if scope \<noteq> [] \<and> last scope = CHR ''/'' then butlast scope else scope)
      in ''^'' @ sc @ ''(/.*)?$'')"

definition get_name_scope_ops :: "regex \<Rightarrow> tfgraph \<Rightarrow> opid list \<Rightarrow> string \<Rightarrow> error + opid list" where
  "get_name_scope_ops rx g ops scope = filter_ops_from_regex rx g ops (name_scope_regex scope)"

text \<open>
  \<^verbatim>\<open>ge.get_forward_walk_ops(seed_ops, inclusive, within_ops)\<close>: the operations reached from
  the seeds along data edges, wave by wave.  An empty \<^verbatim>\<open>within_ops\<close> is falsy in Python
  and restricts nothing.  Control edges are not followed (\<^verbatim>\<open>control_outputs\<close> is left at
  its default).
\<close>

definition is_within :: "opid list \<Rightarrow> opid \<Rightarrow> bool" where
  "is_within within p = (within = [] \<or> p \<in> set within)"

definition next_wave :: "tfgraph \<Rightarrow> opid list \<Rightarrow> opid list \<Rightarrow> opid list \<Rightarrow> opid list" where
  "next_wave g within result wave =
     remdups (filter (\<lambda>c. c \<notin> set result \<and> is_within within c)
       (concat (map (consumers_of_op g) wave)))"

function forward_waves :: "tfgraph \<Rightarrow> opid list \<Rightarrow> opid list \<Rightarrow> opid list \<Rightarrow> opid list" where
  "forward_waves g within result wave =
     (if wave = [] then result
      else forward_waves g within (result @ next_wave g within result wave)
             (next_wave g within result wave))"
  by pat_completeness auto

lemma set_get_consuming_ops: "set (get_consuming_ops g t) \<subseteq> {..<length g}"
  by (auto simp: get_consuming_ops_def)

lemma set_consumers_of_op: "set (consumers_of_op g p) \<subseteq> {..<length g}"
  using set_get_consuming_ops by (fastforce simp: consumers_of_op_def)

lemma set_next_wave: "set (next_wave g within result wave) \<subseteq> {..<length g} - set result"
  using set_consumers_of_op by (fastforce simp: next_wave_def)

termination forward_waves
proof (relation "measures [\<lambda>(g, within, result, wave). card ({..<length g} - set result),
                          \<lambda>(g, within, result, wave). length wave]")
  show "wf (measures [\<lambda>(g, within, result, wave). card ({..<length g} - set result),
                     \<lambda>(g, within, result, wave). length wave])"
    by simp
next
  fix g within result wave
  assume ne: "wave \<noteq> ([] :: opid list)"
  let ?nw = "next_wave g within result wave"
  show "((g, within, result @ ?nw, ?nw), (g, within, result, wave))
        \<in> measures [\<lambda>(g, within, result, wave). card ({..<length g} - set result),
                      \<lambda>(g, within, result, wave). length wave]"
  proof (cases "?nw = []")
    case True
    with ne show ?thesis by simp
  next
    case False
    then obtain x where x: "x \<in> set ?nw" by (cases ?nw) auto
    with set_next_wave [of g within result wave]
    have "x \<in> {..<length g} - set result" by blast
    with x have "{..<length g} - set (result @ ?nw) \<subset> {..<length g} - set result"
      by auto
    then have "card ({..<length g} - set (result @ ?nw)) < card ({..<length g} - set result)"
      by (intro psubset_card_mono) auto
    then show ?thesis by simp
  qed
qed

declare forward_waves.simps [simp del]

definition ge_get_forward_walk_ops :: "tfgraph \<Rightarrow> opid list \<Rightarrow> opid list \<Rightarrow> bool \<Rightarrow> opid list" where
  "ge_get_forward_walk_ops g seed_ops within inclusive =
     (let seeds = remdups (if within \<noteq> [] then set_inter seed_ops within else seed_ops);
          result = forward_waves g within seeds seeds
      in if inclusive then result else set_diff result seeds)"

subsection \<open>The graph editor's and TensorFlow's mutations\<close>

text \<open>
  \<^verbatim>\<open>Graph.unique_name(name)\<close>: the name itself when it is free, otherwise the first free one
  of \<^verbatim>\<open>name_1\<close>, \<^verbatim>\<open>name_2\<close>, ...
\<close>

fun string_of_nat :: "nat \<Rightarrow> string" where
  "string_of_nat n =
     (if n < 10 then [''0123456789'' ! n]
      else string_of_nat (n div 10) @ [''0123456789'' ! (n mod 10)])"

declare string_of_nat.simps [simp del]

fun unique_name_from :: "string list \<Rightarrow> string \<Rightarrow> nat \<Rightarrow> nat \<Rightarrow> string" where
  "unique_name_from used base i 0 = base @ ''_'' @ string_of_nat i"
| "unique_name_from used base i (Suc k) =
     (if base @ ''_'' @ string_of_nat i \<in> set used then unique_name_from used base (Suc i) k
      else base @ ''_'' @ string_of_nat i)"

definition unique_name :: "tfgraph \<Rightarrow> string \<Rightarrow> string" where
  "unique_name g base =
     (if base \<in> set (map op_name g) then unique_name_from (map op_name g) base 1 (length g)
      else base)"

text \<open>
  \<^verbatim>\<open>with tf.device(dev): tf.identity(ts0, name=nm)\<close> appends an \<^verbatim>\<open>Identity\<close> operation
  reading \<^verbatim>\<open>ts0\<close>; the new operation is the last one of the graph.
\<close>

definition tf_identity :: "tfgraph \<Rightarrow> string \<Rightarrow> tensor \<Rightarrow> string \<Rightarrow> tfgraph \<times> opid" where
  "tf_identity g dev ts0 nm =
     (g @ [\<lparr>op_name = unique_name g nm, op_type = ''Identity'', op_inputs = [ts0],
            op_control_inputs = [], op_noutputs = 1, op_device = dev\<rparr>],
      length g)"

text \<open>
  The inputs and outputs of the subgraph view \<^verbatim>\<open>ge.sgv(op)\<close> of one operation: its
  distinct input tensors that it does not produce itself, and its output tensors that
  are not consumed by itself alone.
\<close>

definition sgv_inputs :: "tfgraph \<Rightarrow> opid \<Rightarrow> tensor list" where
  "sgv_inputs g p = remdups (filter (\<lambda>t. fst t \<noteq> p) (op_inputs (g ! p)))"

definition sgv_outputs :: "tfgraph \<Rightarrow> opid \<Rightarrow> tensor list" where
  "sgv_outputs g p =
     filter (\<lambda>t. \<not> (t \<in> set (op_inputs (g ! p)) \<and> get_consuming_ops g t = [p])) (outputs g p)"

text \<open>\<^verbatim>\<open>list.index\<close>, as \<^verbatim>\<open>sgv.input_index(t)\<close> uses it; \<open>None\<close> where Python raises.\<close>

fun index_of :: "'a \<Rightarrow> 'a list \<Rightarrow> nat option" where
  "index_of x [] = None"
| "index_of x (y # ys) = (if x = y then Some 0 else map_option Suc (index_of x ys))"

text \<open>
  \<^verbatim>\<open>ge.connect(sgv0, sgv1)\<close> reroutes, pair by pair, the inputs of the second view to the
  outputs of the first one: every operation that may be modified (the operation of the
  second view and the consumers of the first view's outputs) and that reads \<open>t1\<close> reads
  \<open>t0\<close> instead, in each of its input slots.  Identical tensors are skipped.
\<close>

definition replace_input :: "tensor \<Rightarrow> tensor \<Rightarrow> node \<Rightarrow> node" where
  "replace_input t0 t1 n = n\<lparr>op_inputs := map (\<lambda>t. if t = t1 then t0 else t) (op_inputs n)\<rparr>"

definition reroute_t :: "opid list \<Rightarrow> tensor \<Rightarrow> tensor \<Rightarrow> tfgraph \<Rightarrow> tfgraph" where
  "reroute_t can_modify t0 t1 g =
     (if t0 = t1 then g
      else map (\<lambda>(i, n). if i \<in> set can_modify then replace_input t0 t1 n else n)
             (zip [0..<length g] g))"

definition ge_connect :: "tfgraph \<Rightarrow> tensor list \<Rightarrow> opid \<Rightarrow> tensor list \<Rightarrow> tfgraph" where
  "ge_connect g ts0 dest_op ts1 =
     (let can_modify = dest_op # concat (map (get_consuming_ops g) ts0)
      in fold (\<lambda>(t0, t1). reroute_t can_modify t0 t1) (zip ts0 ts1) g)"

text \<open>\<^verbatim>\<open>ge.add_control_inputs(op, cop)\<close>; it refuses a control input that is already there.\<close>

definition ge_add_control_inputs :: "tfgraph \<Rightarrow> opid \<Rightarrow> opid \<Rightarrow> error + tfgraph" where
  "ge_add_control_inputs g p cop =
     (if cop \<in> set (op_control_inputs (g ! p))
      then Inl (ValueError ''already a control_input'')
      else Inr (g[p := (g ! p)\<lparr>op_control_inputs := op_control_inputs (g ! p) @ [cop]\<rparr>]))"

section \<open>The topological order\<close>

text \<open>
  The class \<^verbatim>\<open>topos.TOPOS\<close> belongs to the repository but its module is not among the
  sources at hand.  The planner uses four members of it, which the model takes as they
  are: \<^verbatim>\<open>get_order(op)\<close>, \<^verbatim>\<open>get_ops(i)\<close>, \<^verbatim>\<open>size\<close> and \<^verbatim>\<open>bw_starting_order\<close>.  The
  constructor followed by \<^verbatim>\<open>build()\<close> is a parameter of \<open>run\<close>.  The attribute
  \<^verbatim>\<open>self._topo_sort\<close> is assigned once by \<^verbatim>\<open>run\<close> and only read afterwards; the methods that
  read it take it as their first argument.
\<close>

record topos =
  get_order :: "opid \<Rightarrow> int"
  get_ops :: "int \<Rightarrow> opid list"
  topo_size :: int
  bw_starting_order :: int

section \<open>The LMS object\<close>

datatype CTRLD_Strategy = CHAIN_RULE | DIRECT_ORDER

definition ATOMIC_TYPES :: "string list" where
  "ATOMIC_TYPES = [''Const'', ''Mul'', ''Add'', ''Identity'', ''Assign'', ''VariableV2'',
                   ''Reshape'', ''Shape'', ''ShapeN'', ''Placeholder'']"

text \<open>
  The arguments of \<^verbatim>\<open>LMS.__init__\<close>.  \<^verbatim>\<open>debug\<close> and \<^verbatim>\<open>debug_level\<close> only steer the log and
  are left out, as is every call of \<^verbatim>\<open>_log_info\<close>.
\<close>

record lms_args =
  arg_optimizer_scopes :: "string list"
  arg_graph :: "tfgraph option"
  arg_starting_scope :: "string option"
  arg_starting_op_names :: "string list option"
  arg_excl_scopes :: "string list"
  arg_incl_scopes :: "string list"
  arg_excl_types :: "string list"
  arg_incl_types :: "string list"
  arg_lb :: int
  arg_ub :: int
  arg_n_tensors :: int
  arg_fuse_swapins :: bool
  arg_ctrld_strategy :: string
  arg_swap_branches :: bool
  arg_branch_threshold :: int
  arg_cpu_device :: string

text \<open>The attributes of the object; \<open>ops_dict\<close> is the memo table of forward walks.\<close>

record lms =
  graph :: "tfgraph option"
  optimizer_scopes :: "string list"
  excl_scopes :: "string list"
  incl_scopes :: "string list"
  excl_types :: "string list"
  incl_types :: "string list"
  starting_scope :: "string option"
  starting_op_names :: "string list option"
  lb :: int
  ub :: int
  n_tensors :: int
  fuse_swapins :: bool
  ctrld_strategy :: CTRLD_Strategy
  swap_branches :: bool
  branch_threshold :: int
  excl_ops :: "opid list"
  incl_ops :: "opid list"
  grad_ops :: "opid list"
  cpu_device :: string
  incpu_count :: int
  ops_dict :: "(opid \<times> opid list) list"

definition init :: "lms_args \<Rightarrow> error + lms" where
  "init a =
     (if arg_optimizer_scopes a = []
      then Inl (ValueError ''A least one optimizer scope is required.'')
      else Inr \<lparr>graph = arg_graph a,
                optimizer_scopes = arg_optimizer_scopes a,
                excl_scopes = arg_excl_scopes a,
                incl_scopes = arg_incl_scopes a,
                excl_types = set_union (arg_excl_types a) ATOMIC_TYPES,
                incl_types = arg_incl_types a,
                starting_scope = arg_starting_scope a,
                starting_op_names = arg_starting_op_names a,
                lb = arg_lb a,
                ub = arg_ub a,
                n_tensors = arg_n_tensors a,
                fuse_swapins = arg_fuse_swapins a,
                ctrld_strategy =
                  (if arg_ctrld_strategy a = ''chain_rule'' then CHAIN_RULE
                   else if arg_ctrld_strategy a = ''direct_order'' then DIRECT_ORDER
                   else CHAIN_RULE),
                swap_branches = arg_swap_branches a,
                branch_threshold = arg_branch_threshold a,
                excl_ops = [],
                incl_ops = [],
                grad_ops = [],
                cpu_device = arg_cpu_device a,
                incpu_count = 0,
                ops_dict = []\<rparr>)"

text \<open>The graph of the object; without a graph there are no operations.\<close>

definition G :: "lms \<Rightarrow> tfgraph" where
  "G s = (case graph s of None \<Rightarrow> [] | Some g \<Rightarrow> g)"

definition set_G :: "tfgraph \<Rightarrow> lms \<Rightarrow> lms" where
  "set_G g s = s\<lparr>graph := Some g\<rparr>"

subsection \<open>Forward walks with the memo table\<close>

text \<open>\<^verbatim>\<open>LMS._get_forward_walk_ops(op, inclusive)\<close>.\<close>

definition get_forward_walk_ops :: "lms \<Rightarrow> opid \<Rightarrow> bool \<Rightarrow> opid list \<times> lms" where
  "get_forward_walk_ops s p inclusive =
     (case map_of (ops_dict s) p of
        Some r \<Rightarrow> (if inclusive then r else set_diff r [p], s)
      | None \<Rightarrow>
          (let ret = ge_get_forward_walk_ops (G s) [p] [] True
           in (if inclusive then ret else set_diff ret [p],
               s\<lparr>ops_dict := (p, ret) # ops_dict s\<rparr>)))"

text \<open>\<^verbatim>\<open>LMS._swapped_max_tensors()\<close>.\<close>

definition swapped_max_tensors :: "lms \<Rightarrow> bool" where
  "swapped_max_tensors s = (n_tensors s > 0 \<and> incpu_count s \<ge> n_tensors s)"

section \<open>Finding the control dependency\<close>

subsection \<open>The direct-order strategy\<close>

text \<open>
  \<^verbatim>\<open>{op for op in candidates if src_op in set(self._get_forward_walk_ops(op))}\<close>: every
  candidate is walked, which fills the memo table.
\<close>

fun on_chain_rule_path :: "lms \<Rightarrow> opid \<Rightarrow> opid list \<Rightarrow> opid list \<times> lms" where
  "on_chain_rule_path s src_op [] = ([], s)"
| "on_chain_rule_path s src_op (p # ps) =
     (let (walk, s1) = get_forward_walk_ops s p True;
          (rest, s2) = on_chain_rule_path s1 src_op ps
      in (if src_op \<in> set walk then p # rest else rest, s2))"

text \<open>The loop \<^verbatim>\<open>for i in reversed(range(range_lb, range_ub))\<close> with its \<^verbatim>\<open>break\<close>.\<close>

fun direct_order_scan :: "topos \<Rightarrow> lms \<Rightarrow> opid \<Rightarrow> int list \<Rightarrow> (opid list \<times> int) \<times> lms" where
  "direct_order_scan T s src_op [] = (([], -1), s)"
| "direct_order_scan T s src_op (i # is) =
     (let (c1, s1) = on_chain_rule_path s src_op (get_ops T i);
          candidates = filter (\<lambda>p. \<not> str_contains ''/cond/'' (op_name (G s1 ! p))) c1
      in if candidates \<noteq> [] then ((candidates, i), s1)
         else direct_order_scan T s1 src_op is)"

text \<open>The levels of \<^verbatim>\<open>reversed(range(range_lb, range_ub))\<close>, in the order of the loop.\<close>

definition direct_order_levels :: "int \<Rightarrow> int \<Rightarrow> int \<Rightarrow> int \<Rightarrow> int list" where
  "direct_order_levels fw_order src_order lower_b upper_b =
     (let range_ub = src_order - lower_b;
          range_lb = max (src_order - upper_b) fw_order + 1
      in rev [range_lb..range_ub - 1])"

definition do_direct_order ::
    "topos \<Rightarrow> lms \<Rightarrow> opid \<Rightarrow> opid \<Rightarrow> int \<Rightarrow> int \<Rightarrow> (opid option \<times> int) \<times> lms" where
  "do_direct_order T s fw_op src_op lower_b upper_b =
     (let fw_order = get_order T fw_op;
          src_order = get_order T src_op;
          ((result_ops, ctrld_order), s1) =
             direct_order_scan T s src_op (direct_order_levels fw_order src_order lower_b upper_b)
      in (case result_ops of
            [] \<Rightarrow> ((None, -1), s1)
          | ctrld_op # _ \<Rightarrow> ((Some ctrld_op, ctrld_order), s1)))"

subsection \<open>The chain-rule strategy\<close>

text \<open>
  Putting operations into a queue unless they are closed or already waiting:
  \<^verbatim>\<open>for op in next_ops: if op in closed_set: continue; if op not in q.queue: q.put(op)\<close>.
\<close>

definition enqueue :: "opid list \<Rightarrow> opid list \<Rightarrow> opid list \<Rightarrow> opid list" where
  "enqueue closed_set next_ops q =
     fold (\<lambda>p q. if p \<in> set closed_set then q else if p \<notin> set q then q @ [p] else q) next_ops q"

text \<open>
  The \<^verbatim>\<open>while\<close> loop of \<^verbatim>\<open>_do_chain_rule\<close>.  A Python \<^verbatim>\<open>while\<close> loop may run forever; the
  model gives each loop a number of iterations \<open>k\<close> and answers \<open>Timeout\<close> when the loop
  would need one more.  The exit tests come before the count, so a loop that stops
  needs no iteration left.
\<close>

fun chain_rule_loop ::
    "tfgraph \<Rightarrow> topos \<Rightarrow> opid list \<Rightarrow> int \<Rightarrow> int \<Rightarrow> nat \<Rightarrow> opid list \<Rightarrow> opid list \<Rightarrow> opid list
      \<Rightarrow> opid list \<Rightarrow> int \<Rightarrow> int \<Rightarrow> error + opid list" where
  "chain_rule_loop g T grad fw_order bw_order k [] open_set2 closed_set result_ops lower_b upper_b =
     Inr result_ops"
| "chain_rule_loop g T grad fw_order bw_order 0 (src_op # open_set1) open_set2 closed_set
       result_ops lower_b upper_b =
     (if upper_b = 0 \<or> lower_b > upper_b then Inr result_ops else Inl Timeout)"
| "chain_rule_loop g T grad fw_order bw_order (Suc k) (src_op # open_set1) open_set2 closed_set
       result_ops lower_b upper_b =
     (if upper_b = 0 \<or> lower_b > upper_b then Inr result_ops
      else
        let total_consumming_ops = consumers_of_op g src_op;
            result_ops1 =
              (if lower_b \<le> 0
               then set_union result_ops
                      (filter (\<lambda>p. \<not> str_contains ''/cond/'' (op_name (g ! p)))
                        (filter (\<lambda>p. get_order T p < bw_order)
                          (filter (\<lambda>p. get_order T p > fw_order)
                            (set_inter total_consumming_ops grad))))
               else result_ops);
            next_ops = set_diff total_consumming_ops grad;
            open_set2a = enqueue closed_set next_ops open_set2;
            closed_set1 = set_add src_op closed_set
        in if open_set1 = []
           then (if result_ops1 \<noteq> [] then Inr result_ops1
                 else chain_rule_loop g T grad fw_order bw_order k open_set2a [] closed_set1
                        result_ops1 (lower_b - 1) (upper_b - 1))
           else chain_rule_loop g T grad fw_order bw_order k open_set1 open_set2a closed_set1
                  result_ops1 lower_b upper_b)"

definition do_chain_rule ::
    "topos \<Rightarrow> nat \<Rightarrow> lms \<Rightarrow> opid \<Rightarrow> opid \<Rightarrow> int \<Rightarrow> int \<Rightarrow> (error + opid option \<times> int) \<times> lms" where
  "do_chain_rule T fuel s fw_op bw_op lower_b upper_b =
     (let fw_order = get_order T fw_op;
          bw_order = get_order T bw_op
      in if bw_order - lower_b < bw_starting_order T
         then (let (re, s1) = do_direct_order T s fw_op bw_op lower_b upper_b in (Inr re, s1))
         else
           (case chain_rule_loop (G s) T (grad_ops s) fw_order bw_order fuel [fw_op] [] []
                   [] lower_b upper_b of
              Inl e \<Rightarrow> (Inl e, s)
            | Inr [] \<Rightarrow> (Inr (None, -1), s)
            | Inr (ctrld_op # _) \<Rightarrow> (Inr (Some ctrld_op, get_order T ctrld_op), s)))"

subsection \<open>Choosing the strategy and adding the edge\<close>

text \<open>
  \<^verbatim>\<open>LMS._add_control_dependency(fw_op, bw_op, swapin_op)\<close>, in its two halves: the search,
  whose result the source calls \<^verbatim>\<open>re\<close>, and the edge added for it.  The last \<^verbatim>\<open>else\<close> of
  the source is the branch of no strategy value and has no case here.
\<close>

definition control_dependency_lb :: "topos \<Rightarrow> lms \<Rightarrow> opid \<Rightarrow> opid \<Rightarrow> int" where
  "control_dependency_lb T s fw_op bw_op =
     (if get_order T bw_op - lb s \<le> get_order T fw_op then 1 else lb s)"

definition find_control_dependency ::
    "topos \<Rightarrow> nat \<Rightarrow> lms \<Rightarrow> opid \<Rightarrow> opid \<Rightarrow> (error + opid option \<times> int) \<times> lms" where
  "find_control_dependency T fuel s fw_op bw_op =
     (let lower_b = control_dependency_lb T s fw_op bw_op
      in if fw_op \<in> set (grad_ops s)
         then (let (re, s1) = do_direct_order T s fw_op bw_op lower_b (ub s) in (Inr re, s1))
         else (case ctrld_strategy s of
                 CHAIN_RULE \<Rightarrow> do_chain_rule T fuel s fw_op bw_op lower_b (ub s)
               | DIRECT_ORDER \<Rightarrow>
                   (let (re, s1) = do_direct_order T s fw_op bw_op lower_b (ub s)
                    in (Inr re, s1))))"

definition add_control_dependency ::
    "topos \<Rightarrow> nat \<Rightarrow> lms \<Rightarrow> opid \<Rightarrow> opid \<Rightarrow> opid \<Rightarrow> (error + unit) \<times> lms" where
  "add_control_dependency T fuel s fw_op bw_op swapin_op =
     (case find_control_dependency T fuel s fw_op bw_op of
        (Inl e, s1) \<Rightarrow> (Inl e, s1)
      | (Inr (None, ctrld_order), s1) \<Rightarrow> (Inr (), s1)
      | (Inr (Some ctrld_op, ctrld_order), s1) \<Rightarrow>
          (case ge_add_control_inputs (G s1) swapin_op ctrld_op of
             Inl e \<Rightarrow> (Inl e, s1)
           | Inr g \<Rightarrow> (Inr (), set_G g s1)))"

section \<open>Inserting swap nodes\<close>

text \<open>
  \<^verbatim>\<open>LMS._connect_ops(src_op, dest_op, remap_inputs, remap_outputs, idx)\<close>;
  \<^verbatim>\<open>disconnect_first\<close> is never set.  \<^verbatim>\<open>remap_outputs([idx])\<close> and \<^verbatim>\<open>remap_inputs([idx])\<close>
  keep the one tensor at position \<open>idx\<close>.
\<close>

definition connect_ops :: "lms \<Rightarrow> opid \<Rightarrow> opid \<Rightarrow> bool \<Rightarrow> bool \<Rightarrow> nat \<Rightarrow> lms" where
  "connect_ops s src_op dest_op remap_inputs remap_outputs idx =
     (let g = G s;
          ts0 = (if remap_outputs then take 1 (drop idx (sgv_outputs g src_op))
                 else sgv_outputs g src_op);
          ts1 = (if remap_inputs then take 1 (drop idx (sgv_inputs g dest_op))
                 else sgv_inputs g dest_op)
      in set_G (ge_connect g ts0 dest_op ts1) s)"

text \<open>\<^verbatim>\<open>LMS._add_swapout(src_op, ts0)\<close>.\<close>

definition add_swapout :: "lms \<Rightarrow> opid \<Rightarrow> tensor \<Rightarrow> (error + opid) \<times> lms" where
  "add_swapout s src_op ts0 =
     (let (g1, swap_out) = tf_identity (G s) (cpu_device s) ts0 ''lms/swapout'';
          s1 = set_G g1 s
      in case index_of ts0 (sgv_outputs (G s1) src_op) of
           None \<Rightarrow> (Inl (ValueError ''output_index''), s1)
         | Some src_out_idx \<Rightarrow>
             (let s2 = connect_ops s1 src_op swap_out False True src_out_idx
              in (Inr swap_out, s2\<lparr>excl_ops := set_add swap_out (excl_ops s2)\<rparr>)))"

text \<open>\<^verbatim>\<open>LMS._add_swapin(swapout_op, dest_op, ts0)\<close>.\<close>

definition add_swapin :: "lms \<Rightarrow> opid \<Rightarrow> opid \<Rightarrow> tensor \<Rightarrow> (error + opid) \<times> lms" where
  "add_swapin s swapout_op dest_op ts0 =
     (let (g1, swap_in) = tf_identity (G s) (cpu_device s) ts0 ''lms/swapin'';
          s1 = set_G g1 s;
          s2 = connect_ops s1 swapout_op swap_in False False 0
      in case index_of ts0 (sgv_inputs (G s2) dest_op) of
           None \<Rightarrow> (Inl (ValueError ''input_index''), s2)
         | Some input_idx \<Rightarrow>
             (let s3 = connect_ops s2 swap_in dest_op True False input_idx
              in (Inr swap_in, s3\<lparr>excl_ops := set_add swap_in (excl_ops s3)\<rparr>)))"

subsection \<open>Fusing swap-in operations\<close>

text \<open>The loop \<^verbatim>\<open>for op in fuse_bw_frontier_ops\<close> that connects the shared swap-in.\<close>

fun fuse_connect :: "lms \<Rightarrow> opid \<Rightarrow> tensor \<Rightarrow> opid list \<Rightarrow> (error + unit) \<times> lms" where
  "fuse_connect s swap_in ts0 [] = (Inr (), s)"
| "fuse_connect s swap_in ts0 (p # ps) =
     (case index_of ts0 (sgv_inputs (G s) p) of
        None \<Rightarrow> (Inl (ValueError ''input_index''), s)
      | Some input_idx \<Rightarrow>
          fuse_connect (connect_ops s swap_in p True False input_idx) swap_in ts0 ps)"

text \<open>The loop that looks for the operation of the smallest order.\<close>

fun earliest_loop :: "topos \<Rightarrow> opid list \<Rightarrow> int \<Rightarrow> opid option \<Rightarrow> opid option" where
  "earliest_loop T [] min_order earliest_op = earliest_op"
| "earliest_loop T (p # ps) min_order earliest_op =
     (if get_order T p < min_order then earliest_loop T ps (get_order T p) (Some p)
      else earliest_loop T ps min_order earliest_op)"

text \<open>\<^verbatim>\<open>LMS._fuse_swapin_ops(src_op, swapout_op, bw_frontier_ops, ts0)\<close>.\<close>

definition fuse_swapin_ops ::
    "topos \<Rightarrow> nat \<Rightarrow> lms \<Rightarrow> opid \<Rightarrow> opid \<Rightarrow> opid list \<Rightarrow> tensor \<Rightarrow> (error + opid list) \<times> lms" where
  "fuse_swapin_ops T fuel s src_op swapout_op bw_frontier_ops ts0 =
     (let fuse_bw_frontier_ops = filter (\<lambda>p. get_order T p > 0) bw_frontier_ops
      in if length fuse_bw_frontier_ops \<ge> 2
         then
           (let (g1, swap_in) = tf_identity (G s) (cpu_device s) ts0 ''lms/swapin'';
                s1 = set_G g1 s;
                s2 = connect_ops s1 swapout_op swap_in False False 0;
                s3 = s2\<lparr>excl_ops := set_add swap_in (excl_ops s2)\<rparr>
            in case fuse_connect s3 swap_in ts0 fuse_bw_frontier_ops of
                 (Inl e, s4) \<Rightarrow> (Inl e, s4)
               | (Inr u, s4) \<Rightarrow>
                   (case earliest_loop T fuse_bw_frontier_ops (topo_size T + 1) None of
                      None \<Rightarrow> (Inr (set_diff bw_frontier_ops fuse_bw_frontier_ops), s4)
                    | Some earliest_op \<Rightarrow>
                        (case add_control_dependency T fuel s4 src_op earliest_op swap_in of
                           (Inl e, s5) \<Rightarrow> (Inl e, s5)
                         | (Inr u, s5) \<Rightarrow>
                             (Inr (set_diff bw_frontier_ops fuse_bw_frontier_ops), s5))))
         else (Inr bw_frontier_ops, s))"

subsection \<open>Branches and new sources\<close>

text \<open>\<^verbatim>\<open>LMS._get_branch_ops(within_ops, threshold)\<close>.\<close>

definition get_branch_ops :: "topos \<Rightarrow> opid list \<Rightarrow> int \<Rightarrow> opid list" where
  "get_branch_ops T within_ops threshold =
     (case map (get_order T) within_ops of
        [] \<Rightarrow> []
      | order # orders \<Rightarrow>
          (let min_order = fold min orders order + threshold
           in filter (\<lambda>p. get_order T p > min_order) within_ops))"

text \<open>\<^verbatim>\<open>LMS._find_new_src_op(original_op)\<close> and its \<^verbatim>\<open>while\<close> loop.\<close>

fun find_new_src_loop ::
    "tfgraph \<Rightarrow> topos \<Rightarrow> nat \<Rightarrow> opid list \<Rightarrow> opid list \<Rightarrow> opid list \<Rightarrow> error + opid list" where
  "find_new_src_loop g T k [] closed_set src_ops = Inr src_ops"
| "find_new_src_loop g T 0 (src_op # open_set) closed_set src_ops = Inl Timeout"
| "find_new_src_loop g T (Suc k) (src_op # open_set) closed_set src_ops =
     (let frontier_ops = consumers_of_op g src_op;
          has_order_ops =
            filter (\<lambda>p. get_order T p > bw_starting_order T) frontier_ops;
          src_ops1 = (if has_order_ops \<noteq> [] then set_add src_op src_ops else src_ops);
          next_ops = set_diff frontier_ops has_order_ops
      in find_new_src_loop g T k (enqueue closed_set next_ops open_set)
           (set_add src_op closed_set) src_ops1)"

definition find_new_src_op :: "topos \<Rightarrow> nat \<Rightarrow> lms \<Rightarrow> opid \<Rightarrow> error + opid list" where
  "find_new_src_op T fuel s original_op = find_new_src_loop (G s) T fuel [original_op] [] []"

subsection \<open>The planner's step for one operation\<close>

text \<open>
  \<^verbatim>\<open>{op for op in bw_frontier_ops if set(self._get_forward_walk_ops(op, inclusive=False))}\<close>.
\<close>

fun with_outgoing_ops :: "lms \<Rightarrow> opid list \<Rightarrow> opid list \<times> lms" where
  "with_outgoing_ops s [] = ([], s)"
| "with_outgoing_ops s (p # ps) =
     (let (walk, s1) = get_forward_walk_ops s p False;
          (rest, s2) = with_outgoing_ops s1 ps
      in (if walk \<noteq> [] then p # rest else rest, s2))"

text \<open>
  The frontier of a tensor for which swap nodes are inserted, lines 493 to 510 of the
  source.
\<close>

definition bw_frontier :: "topos \<Rightarrow> lms \<Rightarrow> tensor \<Rightarrow> opid list \<times> lms" where
  "bw_frontier T s t =
     (let frontier_ops = get_consuming_ops (G s) t;
          bw_frontier_ops = set_inter frontier_ops (grad_ops s);
          bw_frontier_ops1 =
            (if swap_branches s
             then set_union bw_frontier_ops
                    (get_branch_ops T (set_diff frontier_ops (grad_ops s)) (branch_threshold s))
             else bw_frontier_ops)
      in with_outgoing_ops s bw_frontier_ops1)"

text \<open>
  The swap-out node of a tensor, lines 519 to 525: created when one operation of the
  frontier has an order.
\<close>

definition make_swapout :: "topos \<Rightarrow> lms \<Rightarrow> opid \<Rightarrow> tensor \<Rightarrow> opid list \<Rightarrow> (error + opid option) \<times> lms" where
  "make_swapout T s src_op t bw_frontier_ops =
     (if list_ex (\<lambda>p. get_order T p \<ge> 0) bw_frontier_ops
      then (case add_swapout s src_op t of
              (Inl e, s1) \<Rightarrow> (Inl e, s1)
            | (Inr swapout_op, s1) \<Rightarrow>
                (Inr (Some swapout_op), s1\<lparr>incpu_count := incpu_count s1 + 1\<rparr>))
      else (Inr None, s))"

text \<open>Lines 528 to 530: fusion, when it is enabled and a swap-out node exists.\<close>

definition fuse_step ::
    "topos \<Rightarrow> nat \<Rightarrow> lms \<Rightarrow> opid \<Rightarrow> opid option \<Rightarrow> opid list \<Rightarrow> tensor \<Rightarrow> (error + opid list) \<times> lms" where
  "fuse_step T fuel s src_op swapout_op bw_frontier_ops t =
     (case swapout_op of
        None \<Rightarrow> (Inr bw_frontier_ops, s)
      | Some so \<Rightarrow>
          (if fuse_swapins s then fuse_swapin_ops T fuel s src_op so bw_frontier_ops t
           else (Inr bw_frontier_ops, s)))"

text \<open>
  Lines 541 to 543: the swap-in node of one consumer and its control dependency.  A
  consumer with an order is met only when the swap-out node exists; the source would
  fail on \<^verbatim>\<open>None\<close> otherwise.
\<close>

definition swapin_step ::
    "topos \<Rightarrow> nat \<Rightarrow> lms \<Rightarrow> opid \<Rightarrow> opid option \<Rightarrow> opid \<Rightarrow> tensor \<Rightarrow> (error + unit) \<times> lms" where
  "swapin_step T fuel s src_op swapout_op dest_op t =
     (case swapout_op of
        None \<Rightarrow> (Inl (ValueError ''no swapout_op''), s)
      | Some so \<Rightarrow>
          (case add_swapin s so dest_op t of
             (Inl e, s1) \<Rightarrow> (Inl e, s1)
           | (Inr swapin_op, s1) \<Rightarrow> add_control_dependency T fuel s1 src_op dest_op swapin_op))"

text \<open>
  \<^verbatim>\<open>LMS._insert_swap_nodes(src_op)\<close>.  The method calls itself for the new sources found
  behind a consumer without an order.  Python bounds the depth of the recursion; \<open>d\<close> is
  the depth that is left and \<open>RecursionError\<close> the answer when it is used up.  The three
  loops of the method are functions of their own, over the new sources, over the
  consumers of one output and over the outputs of \<open>src_op\<close>; \<open>self_call\<close> stands for the
  method itself, one level deeper.
\<close>

fun insert_for_new_srcs ::
    "(lms \<Rightarrow> opid \<Rightarrow> (error + unit) \<times> lms) \<Rightarrow> opid list \<Rightarrow> lms \<Rightarrow> (error + unit) \<times> lms" where
  "insert_for_new_srcs self_call [] s = (Inr (), s)"
| "insert_for_new_srcs self_call (p # ps) s =
     (case self_call s p of
        (Inl e, s1) \<Rightarrow> (Inl e, s1)
      | (Inr u, s1) \<Rightarrow> insert_for_new_srcs self_call ps s1)"

definition insert_for_dest ::
    "(lms \<Rightarrow> opid \<Rightarrow> (error + unit) \<times> lms) \<Rightarrow> topos \<Rightarrow> nat \<Rightarrow> opid \<Rightarrow> opid option \<Rightarrow> tensor
      \<Rightarrow> opid \<Rightarrow> lms \<Rightarrow> (error + unit) \<times> lms" where
  "insert_for_dest self_call T fuel src_op swapout_op t dest_op s =
     (if get_order T dest_op < 0
      then
        (if src_op \<in> set (grad_ops s) then (Inr (), s)
         else
           (case find_new_src_op T fuel s dest_op of
              Inl e \<Rightarrow> (Inl e, s)
            | Inr new_src_ops \<Rightarrow> insert_for_new_srcs self_call new_src_ops s))
      else swapin_step T fuel s src_op swapout_op dest_op t)"

fun insert_for_dests ::
    "(lms \<Rightarrow> opid \<Rightarrow> (error + unit) \<times> lms) \<Rightarrow> topos \<Rightarrow> nat \<Rightarrow> opid \<Rightarrow> opid option \<Rightarrow> tensor
      \<Rightarrow> opid list \<Rightarrow> lms \<Rightarrow> (error + unit) \<times> lms" where
  "insert_for_dests self_call T fuel src_op swapout_op t [] s = (Inr (), s)"
| "insert_for_dests self_call T fuel src_op swapout_op t (dest_op # dests) s =
     (case insert_for_dest self_call T fuel src_op swapout_op t dest_op s of
        (Inl e, s1) \<Rightarrow> (Inl e, s1)
      | (Inr u, s1) \<Rightarrow> insert_for_dests self_call T fuel src_op swapout_op t dests s1)"

text \<open>The body of the loop over the outputs, from line 493 on, for one tensor.\<close>

definition insert_for_output ::
    "(lms \<Rightarrow> opid \<Rightarrow> (error + unit) \<times> lms) \<Rightarrow> topos \<Rightarrow> nat \<Rightarrow> opid \<Rightarrow> tensor \<Rightarrow> lms
      \<Rightarrow> (error + unit) \<times> lms" where
  "insert_for_output self_call T fuel src_op t s =
     (case bw_frontier T s t of
        ([], s1) \<Rightarrow> (Inr (), s1)
      | (p # ps, s1) \<Rightarrow>
          (case make_swapout T s1 src_op t (p # ps) of
             (Inl e, s2) \<Rightarrow> (Inl e, s2)
           | (Inr swapout_op, s2) \<Rightarrow>
               (case fuse_step T fuel s2 src_op swapout_op (p # ps) t of
                  (Inl e, s3) \<Rightarrow> (Inl e, s3)
                | (Inr bw_frontier_ops, s3) \<Rightarrow>
                    insert_for_dests self_call T fuel src_op swapout_op t bw_frontier_ops s3)))"

fun insert_for_outputs ::
    "(lms \<Rightarrow> opid \<Rightarrow> (error + unit) \<times> lms) \<Rightarrow> topos \<Rightarrow> nat \<Rightarrow> opid \<Rightarrow> tensor list \<Rightarrow> lms
      \<Rightarrow> (error + unit) \<times> lms" where
  "insert_for_outputs self_call T fuel src_op [] s = (Inr (), s)"
| "insert_for_outputs self_call T fuel src_op (t # ts) s =
     (if swapped_max_tensors s then (Inr (), s)
      else
        (case insert_for_output self_call T fuel src_op t s of
           (Inl e, s1) \<Rightarrow> (Inl e, s1)
         | (Inr u, s1) \<Rightarrow> insert_for_outputs self_call T fuel src_op ts s1))"

definition insert_swap_nodes_body ::
    "(lms \<Rightarrow> opid \<Rightarrow> (error + unit) \<times> lms) \<Rightarrow> topos \<Rightarrow> nat \<Rightarrow> lms \<Rightarrow> opid
      \<Rightarrow> (error + unit) \<times> lms" where
  "insert_swap_nodes_body self_call T fuel s src_op =
     (if src_op \<in> set (excl_ops s) then (Inr (), s)
      else if incl_ops s \<noteq> [] \<and> src_op \<notin> set (incl_ops s) then (Inr (), s)
      else insert_for_outputs self_call T fuel src_op (outputs (G s) src_op) s)"

primrec insert_swap_nodes :: "topos \<Rightarrow> nat \<Rightarrow> nat \<Rightarrow> lms \<Rightarrow> opid \<Rightarrow> (error + unit) \<times> lms" where
  "insert_swap_nodes T fuel 0 = (\<lambda>s src_op. (Inl RecursionError, s))"
| "insert_swap_nodes T fuel (Suc d) = insert_swap_nodes_body (insert_swap_nodes T fuel d) T fuel"

text \<open>\<^verbatim>\<open>LMS._do_action(src_ops)\<close> and its \<^verbatim>\<open>while\<close> loop.\<close>

fun do_action_loop ::
    "topos \<Rightarrow> nat \<Rightarrow> nat \<Rightarrow> lms \<Rightarrow> opid list \<Rightarrow> opid list \<Rightarrow> (error + unit) \<times> lms" where
  "do_action_loop T fuel k s [] closed_set = (Inr (), s)"
| "do_action_loop T fuel 0 s (src_op # open_set) closed_set = (Inl Timeout, s)"
| "do_action_loop T fuel (Suc k) s (src_op # open_set) closed_set =
     (let next_ops = set_diff (consumers_of_op (G s) src_op) (grad_ops s)
      in case insert_swap_nodes T fuel fuel s src_op of
           (Inl e, s1) \<Rightarrow> (Inl e, s1)
         | (Inr u, s1) \<Rightarrow>
             (if swapped_max_tensors s1 then (Inr (), s1)
              else do_action_loop T fuel k s1 (enqueue closed_set next_ops open_set)
                     (set_add src_op closed_set)))"

definition do_action :: "topos \<Rightarrow> nat \<Rightarrow> lms \<Rightarrow> opid list \<Rightarrow> (error + unit) \<times> lms" where
  "do_action T fuel s src_ops = do_action_loop T fuel fuel s src_ops []"

section \<open>The entry point\<close>

text \<open>\<^verbatim>\<open>LMS._build_gradient_ops()\<close>.\<close>

fun build_gradient_ops_loop :: "regex \<Rightarrow> string list \<Rightarrow> lms \<Rightarrow> (error + unit) \<times> lms" where
  "build_gradient_ops_loop rx [] s = (Inr (), s)"
| "build_gradient_ops_loop rx (scope # scopes) s =
     (case filter_ops_from_regex rx (G s) (make_list_of_op (G s)) (''^'' @ scope) of
        Inl e \<Rightarrow> (Inl e, s)
      | Inr ops_for_scope \<Rightarrow>
          (if ops_for_scope = []
           then (Inl (ValueError (''No operations were found with optimizer scope '' @ scope @ ''.'')), s)
           else build_gradient_ops_loop rx scopes
                  (s\<lparr>grad_ops := set_union (grad_ops s) ops_for_scope\<rparr>)))"

definition build_gradient_ops :: "regex \<Rightarrow> lms \<Rightarrow> (error + unit) \<times> lms" where
  "build_gradient_ops rx s = build_gradient_ops_loop rx (optimizer_scopes s) s"

text \<open>\<^verbatim>\<open>LMS._get_seed_ops()\<close>: the given starting points first.\<close>

definition starting_scope_ops :: "regex \<Rightarrow> tfgraph \<Rightarrow> string option \<Rightarrow> error + opid list" where
  "starting_scope_ops rx g sc =
     (case sc of
        None \<Rightarrow> Inr []
      | Some scope \<Rightarrow>
          (if scope = [] then Inr []
           else (case filter_ops_from_regex rx g (make_list_of_op g) (''^'' @ scope) of
                   Inl e \<Rightarrow> Inl e
                 | Inr scope_ops \<Rightarrow>
                     (if scope_ops = []
                      then Inl (ValueError (''No operations were found in starting scope '' @ scope @ ''.''))
                      else Inr scope_ops))))"

fun starting_names_loop :: "regex \<Rightarrow> tfgraph \<Rightarrow> string list \<Rightarrow> opid list \<Rightarrow> error + opid list" where
  "starting_names_loop rx g [] seed_ops = Inr seed_ops"
| "starting_names_loop rx g (nm # nms) seed_ops =
     (case filter_ops_from_regex rx g (make_list_of_op g) (''^'' @ nm @ ''$'') of
        Inl e \<Rightarrow> Inl e
      | Inr name_ops \<Rightarrow>
          (if name_ops = []
           then Inl (ValueError (''No starting operation was found with name '' @ nm @ ''.''))
           else starting_names_loop rx g nms (set_union seed_ops name_ops)))"

text \<open>The automatic search for the seeds, the branch \<^verbatim>\<open>if not seed_ops\<close>.\<close>

definition seed_candidates :: "tfgraph \<Rightarrow> opid list \<Rightarrow> opid list" where
  "seed_candidates g grad =
     filter (\<lambda>p. list_ex (\<lambda>t. set_inter (get_consuming_ops g t) grad \<noteq> []) (outputs g p))
       (set_diff (make_list_of_op g) grad)"

fun score_candidates ::
    "tfgraph \<Rightarrow> opid list \<Rightarrow> opid list \<Rightarrow> opid list \<Rightarrow> (opid \<times> int) list \<Rightarrow> int
      \<Rightarrow> (opid \<times> int) list \<times> int" where
  "score_candidates g non_grad_ops candidates [] tmp_dict max_nelems = (tmp_dict, max_nelems)"
| "score_candidates g non_grad_ops candidates (p # ps) tmp_dict max_nelems =
     (let nelems = int (length (remdups (set_inter
                      (ge_get_forward_walk_ops g [p] non_grad_ops False) candidates)))
      in if nelems > 0
         then score_candidates g non_grad_ops candidates ps (tmp_dict @ [(p, nelems)])
                (if nelems > max_nelems then nelems else max_nelems)
         else score_candidates g non_grad_ops candidates ps tmp_dict max_nelems)"

definition auto_seed_ops :: "tfgraph \<Rightarrow> opid list \<Rightarrow> opid list" where
  "auto_seed_ops g grad =
     (let non_grad_ops = set_diff (make_list_of_op g) grad;
          candidates = seed_candidates g grad;
          (tmp_dict, max_nelems) = score_candidates g non_grad_ops candidates candidates [] (-1)
      in map fst (filter (\<lambda>(k, v). v = max_nelems) tmp_dict))"

definition get_seed_ops :: "regex \<Rightarrow> lms \<Rightarrow> error + opid list" where
  "get_seed_ops rx s =
     (case starting_scope_ops rx (G s) (starting_scope s) of
        Inl e \<Rightarrow> Inl e
      | Inr seed_ops1 \<Rightarrow>
          (case (case starting_op_names s of
                   None \<Rightarrow> Inr seed_ops1
                 | Some nms \<Rightarrow> starting_names_loop rx (G s) nms seed_ops1) of
             Inl e \<Rightarrow> Inl e
           | Inr seed_ops \<Rightarrow>
               (if seed_ops = [] then Inr (auto_seed_ops (G s) (grad_ops s))
                else Inr seed_ops)))"

text \<open>\<^verbatim>\<open>LMS._filter_scopes_and_types(within_ops, scopes, types)\<close>.\<close>

fun filter_scopes_loop ::
    "regex \<Rightarrow> tfgraph \<Rightarrow> opid list \<Rightarrow> string list \<Rightarrow> opid list \<Rightarrow> error + opid list" where
  "filter_scopes_loop rx g within_ops [] ret_ops = Inr ret_ops"
| "filter_scopes_loop rx g within_ops (scope # scopes) ret_ops =
     (case get_name_scope_ops rx g within_ops scope of
        Inl e \<Rightarrow> Inl e
      | Inr ops \<Rightarrow>
          (if ops = []
           then Inl (ValueError (''No operations were found with scope '' @ scope @ ''.''))
           else filter_scopes_loop rx g within_ops scopes (set_union ret_ops ops)))"

definition filter_scopes_and_types ::
    "regex \<Rightarrow> tfgraph \<Rightarrow> opid list \<Rightarrow> string list \<Rightarrow> string list \<Rightarrow> error + opid list" where
  "filter_scopes_and_types rx g within_ops scopes types =
     (case filter_scopes_loop rx g within_ops scopes [] of
        Inl e \<Rightarrow> Inl e
      | Inr ret_ops \<Rightarrow>
          (let type_ops = filter (\<lambda>p. op_type (g ! p) \<in> set types) within_ops;
               found_types = remdups (map (\<lambda>p. op_type (g ! p)) type_ops);
               missing_types = set_diff (set_diff types found_types) ATOMIC_TYPES
           in if missing_types \<noteq> []
              then Inl (ValueError (''No operations were found with types:  ''
                          @ concat missing_types @ ''.''))
              else Inr (set_union ret_ops type_ops)))"

text \<open>The operations reachable from the seeds, through the memo table (lines 314 to 316).\<close>

fun reachable_loop :: "lms \<Rightarrow> opid list \<Rightarrow> opid list \<Rightarrow> opid list \<times> lms" where
  "reachable_loop s [] reachable_ops = (reachable_ops, s)"
| "reachable_loop s (seed_op # seed_ops) reachable_ops =
     (let (walk, s1) = get_forward_walk_ops s seed_op True
      in reachable_loop s1 seed_ops (set_union reachable_ops walk))"

text \<open>The same after the rewrite, straight from the graph editor (lines 344 to 346).\<close>

definition new_reachable :: "tfgraph \<Rightarrow> opid list \<Rightarrow> opid list" where
  "new_reachable g seed_ops =
     fold (\<lambda>seed_op acc. set_union acc (ge_get_forward_walk_ops g [seed_op] [] True)) seed_ops []"

text \<open>The test of lines 318 to 322.\<close>

definition already_updated :: "tfgraph \<Rightarrow> opid list \<Rightarrow> bool" where
  "already_updated g reachable_ops =
     list_ex (\<lambda>p. str_contains ''lms/swap'' (op_name (g ! p))) reachable_ops"

text \<open>
  \<^verbatim>\<open>LMS.run(graph)\<close>, in three parts: \<open>run_rewrite\<close> is the method from line 323 on (the
  filters, the topological order, the planner and the result), \<open>run_on_graph\<close> is the
  method from line 307 to line 322 (the backward operations, the seeds and the test for
  a graph that is already rewritten), and \<open>run\<close> is its head.  The result \<open>None\<close> is
  Python's \<^verbatim>\<open>None\<close>, what a bare \<^verbatim>\<open>return\<close> gives; \<open>rx\<close> is Python's \<^verbatim>\<open>re\<close>; \<open>TOPOS\<close> builds the
  topological order from the graph, the seeds and the backward operations; \<open>fuel\<close> bounds each loop and the
  depth of the recursion.  The error travels with the state in which it was raised: the
  graph is mutated in place and a failed run leaves it as it is at that moment.
\<close>

definition run_rewrite ::
    "regex \<Rightarrow> (tfgraph \<Rightarrow> opid list \<Rightarrow> opid list \<Rightarrow> topos) \<Rightarrow> nat \<Rightarrow> lms \<Rightarrow> opid list
      \<Rightarrow> opid list \<Rightarrow> (error + opid list option) \<times> lms" where
  "run_rewrite rx TOPOS fuel s seed_ops reachable_ops =
     (case filter_scopes_and_types rx (G s) reachable_ops (excl_scopes s) (excl_types s) of
        Inl e \<Rightarrow> (Inl e, s)
      | Inr excl \<Rightarrow>
          (let s1 = s\<lparr>excl_ops := excl\<rparr>
           in case filter_scopes_and_types rx (G s1) reachable_ops (incl_scopes s1) (incl_types s1) of
                Inl e \<Rightarrow> (Inl e, s1)
              | Inr incl \<Rightarrow>
                  (let s2 = s1\<lparr>incl_ops := incl\<rparr>;
                       reachable_ops1 = set_diff reachable_ops (grad_ops s2);
                       T = TOPOS (G s2) seed_ops (grad_ops s2)
                   in case do_action T fuel s2 seed_ops of
                        (Inl e, s3) \<Rightarrow> (Inl e, s3)
                      | (Inr u, s3) \<Rightarrow>
                          (let new_reachable_ops =
                                 set_diff (new_reachable (G s3) seed_ops) (grad_ops s3)
                           in (Inr (Some (set_diff new_reachable_ops reachable_ops1)), s3)))))"

definition run_on_graph ::
    "regex \<Rightarrow> (tfgraph \<Rightarrow> opid list \<Rightarrow> opid list \<Rightarrow> topos) \<Rightarrow> nat \<Rightarrow> lms
      \<Rightarrow> (error + opid list option) \<times> lms" where
  "run_on_graph rx TOPOS fuel s =
     (case build_gradient_ops rx s of
        (Inl e, s1) \<Rightarrow> (Inl e, s1)
      | (Inr u, s1) \<Rightarrow>
          (case get_seed_ops rx s1 of
             Inl e \<Rightarrow> (Inl e, s1)
           | Inr seed_ops \<Rightarrow>
               (let (reachable_ops, s2) = reachable_loop s1 seed_ops []
                in if already_updated (G s2) reachable_ops then (Inr None, s2)
                   else run_rewrite rx TOPOS fuel s2 seed_ops reachable_ops)))"

definition run ::
    "regex \<Rightarrow> (tfgraph \<Rightarrow> opid list \<Rightarrow> opid list \<Rightarrow> topos) \<Rightarrow> nat \<Rightarrow> lms \<Rightarrow> tfgraph option
      \<Rightarrow> (error + opid list option) \<times> lms" where
  "run rx TOPOS fuel s0 graph_arg =
     (let s = (case graph_arg of None \<Rightarrow> s0 | Some g \<Rightarrow> s0\<lparr>graph := Some g\<rparr>)
      in if n_tensors s = 0 then (Inr None, s)
         else
           (let s1 = (if n_tensors s < 0 then s\<lparr>n_tensors := 0\<rparr> else s)
            in if graph s1 = None
               then (Inl (ValueError
                      ''The dataflow graph is required but has not been provided.''), s1)
               else run_on_graph rx TOPOS fuel s1))"

section \<open>Example objects\<close>

text \<open>
  A small training graph: a convolution whose output is read by the forward phase and by
  two gradient operations, and the chain of the backward phase.
\<close>

definition example_node :: "string \<Rightarrow> string \<Rightarrow> tensor list \<Rightarrow> node" where
  "example_node nm ty ins =
     \<lparr>op_name = nm, op_type = ty, op_inputs = ins, op_control_inputs = [],
      op_noutputs = 1, op_device = ''/gpu:0''\<rparr>"

definition example_graph :: tfgraph where
  "example_graph =
     [example_node ''fw/conv'' ''Conv2D'' [],
      example_node ''fw/relu'' ''Relu'' [(0, 0)],
      example_node ''fw/loss'' ''Mean'' [(1, 0)],
      example_node ''gradients/loss_grad'' ''Fill'' [(2, 0)],
      example_node ''gradients/relu_grad'' ''ReluGrad'' [(3, 0), (0, 0)],
      example_node ''gradients/conv_grad'' ''Conv2DBackpropFilter'' [(4, 0), (0, 0)],
      example_node ''gradients/apply'' ''ApplyGradientDescent'' [(5, 0)]]"

text \<open>
  The regular expressions of the examples.  From a scope or a name without special
  characters the program builds the patterns \<^verbatim>\<open>^text\<close>, \<^verbatim>\<open>^text$\<close> and \<^verbatim>\<open>^text(/.*)?$\<close>; on
  these \<open>example_re\<close> is what \<^verbatim>\<open>re\<close> does: the name starts with the text, is the text, or is
  the text alone or followed by a slash and anything.  A pattern of another form is used
  by one example only, the text \<^verbatim>\<open>^(\<close>, for which \<^verbatim>\<open>re.compile\<close> raises; \<open>example_re\<close>
  answers \<open>None\<close> for every pattern of another form and is Python's \<^verbatim>\<open>re\<close> on the patterns
  of the examples only.
\<close>

definition plain_text :: "string \<Rightarrow> bool" where
  "plain_text s = list_all (\<lambda>c. c \<notin> set ''.^$*+?{}[]|()'' \<and> c \<noteq> CHR 0x5C) s"

definition example_re :: regex where
  "example_re pattern =
     (case pattern of
        [] \<Rightarrow> None
      | c # body \<Rightarrow>
          (if c \<noteq> CHR ''^'' then None
           else if plain_text body then Some (prefix body)
           else if body \<noteq> [] \<and> last body = CHR ''$'' \<and> plain_text (butlast body)
             then Some (\<lambda>nm. nm = butlast body)
           else if suffix ''(/.*)?$'' body \<and> plain_text (take (length body - 7) body)
             then Some (\<lambda>nm. nm = take (length body - 7) body
                             \<or> prefix (take (length body - 7) body @ ''/'') nm)
           else None))"

text \<open>Its topological order, one operation per level; the backward phase starts at 3.\<close>

definition example_topos :: topos where
  "example_topos =
     \<lparr>get_order = (\<lambda>p. if p < 7 then int p else -1),
      get_ops = (\<lambda>i. if 0 \<le> i \<and> i < 7 then [nat i] else []),
      topo_size = 7,
      bw_starting_order = 3\<rparr>"

definition example_TOPOS :: "tfgraph \<Rightarrow> opid list \<Rightarrow> opid list \<Rightarrow> topos" where
  "example_TOPOS g seed_ops grad = example_topos"

text \<open>
  Constructor arguments with the defaults of \<^verbatim>\<open>LMS.__init__\<close>, for the optimizer scope
  \<^verbatim>\<open>gradients\<close>, and the object they give.
\<close>

definition default_args :: lms_args where
  "default_args =
     \<lparr>arg_optimizer_scopes = [''gradients''], arg_graph = None, arg_starting_scope = None,
      arg_starting_op_names = None, arg_excl_scopes = [], arg_incl_scopes = [],
      arg_excl_types = [], arg_incl_types = [], arg_lb = 1, arg_ub = 10000,
      arg_n_tensors = -1, arg_fuse_swapins = False, arg_ctrld_strategy = ''chain_rule'',
      arg_swap_branches = False, arg_branch_threshold = 0, arg_cpu_device = ''/cpu:0''\<rparr>"

definition default_lms :: lms where
  "default_lms =
     \<lparr>graph = None, optimizer_scopes = [''gradients''], excl_scopes = [], incl_scopes = [],
      excl_types = ATOMIC_TYPES, incl_types = [], starting_scope = None,
      starting_op_names = None, lb = 1, ub = 10000, n_tensors = -1, fuse_swapins = False,
      ctrld_strategy = CHAIN_RULE, swap_branches = False, branch_threshold = 0,
      excl_ops = [], incl_ops = [], grad_ops = [], cpu_device = ''/cpu:0'',
      incpu_count = 0, ops_dict = []\<rparr>"

text \<open>The object after \<^verbatim>\<open>_build_gradient_ops\<close> on the example graph.\<close>

definition example_state :: lms where
  "example_state = default_lms\<lparr>graph := Some example_graph, grad_ops := [3, 4, 5, 6]\<rparr>"

text \<open>
  The example graph after a run of the default object: the outputs of \<^verbatim>\<open>fw/conv\<close> and
  \<^verbatim>\<open>fw/loss\<close> are swapped out and in again.
\<close>

definition swap_node :: "string \<Rightarrow> tensor list \<Rightarrow> opid list \<Rightarrow> node" where
  "swap_node nm ins ctrl =
     \<lparr>op_name = nm, op_type = ''Identity'', op_inputs = ins, op_control_inputs = ctrl,
      op_noutputs = 1, op_device = ''/cpu:0''\<rparr>"

definition example_rewritten :: tfgraph where
  "example_rewritten =
     [example_node ''fw/conv'' ''Conv2D'' [],
      example_node ''fw/relu'' ''Relu'' [(0, 0)],
      example_node ''fw/loss'' ''Mean'' [(1, 0)],
      example_node ''gradients/loss_grad'' ''Fill'' [(11, 0)],
      example_node ''gradients/relu_grad'' ''ReluGrad'' [(3, 0), (8, 0)],
      example_node ''gradients/conv_grad'' ''Conv2DBackpropFilter'' [(4, 0), (9, 0)],
      example_node ''gradients/apply'' ''ApplyGradientDescent'' [(5, 0)],
      swap_node ''lms/swapout'' [(0, 0)] [],
      swap_node ''lms/swapin'' [(7, 0)] [3],
      swap_node ''lms/swapin_1'' [(7, 0)] [3],
      swap_node ''lms/swapout_1'' [(2, 0)] [],
      swap_node ''lms/swapin_2'' [(10, 0)] []]"

text \<open>
  An object that names its starting operation and relocates five tensors at most, the same
  object after its run on the example graph, and the graph after a second run of it.
\<close>

definition named_lms :: lms where
  "named_lms = default_lms\<lparr>starting_op_names := Some [''fw/conv''], n_tensors := 5\<rparr>"

definition named_lms_after_run :: lms where
  "named_lms_after_run =
     named_lms\<lparr>graph := Some example_rewritten, excl_ops := [7, 8, 9, 10, 11],
       grad_ops := [3, 4, 5, 6], incpu_count := 2,
       ops_dict := [(3, [3, 4, 5, 6]), (5, [5, 6]), (4, [4, 5, 6]), (0, [0, 1, 4, 5, 2, 6, 3])]\<rparr>"

definition example_rewritten_twice :: tfgraph where
  "example_rewritten_twice =
     [example_node ''fw/conv'' ''Conv2D'' [],
      example_node ''fw/relu'' ''Relu'' [(0, 0)],
      example_node ''fw/loss'' ''Mean'' [(1, 0)],
      example_node ''gradients/loss_grad'' ''Fill'' [(17, 0)],
      example_node ''gradients/relu_grad'' ''ReluGrad'' [(3, 0), (13, 0)],
      example_node ''gradients/conv_grad'' ''Conv2DBackpropFilter'' [(4, 0), (15, 0)],
      example_node ''gradients/apply'' ''ApplyGradientDescent'' [(5, 0)],
      swap_node ''lms/swapout'' [(0, 0)] [],
      swap_node ''lms/swapin'' [(7, 0)] [3],
      swap_node ''lms/swapin_1'' [(7, 0)] [3],
      swap_node ''lms/swapout_1'' [(2, 0)] [],
      swap_node ''lms/swapin_2'' [(10, 0)] [],
      swap_node ''lms/swapout_2'' [(8, 0)] [],
      swap_node ''lms/swapin_3'' [(12, 0)] [],
      swap_node ''lms/swapout_3'' [(9, 0)] [],
      swap_node ''lms/swapin_4'' [(14, 0)] [],
      swap_node ''lms/swapout_4'' [(11, 0)] [],
      swap_node ''lms/swapin_5'' [(16, 0)] [1]]"

text \<open>
  Two towers that meet in the backward phase only, the order that gives every operation
  its index as level, and the graph after a run of the default object: the first tower
  is rewritten, the second one is not.
\<close>

definition two_towers :: tfgraph where
  "two_towers =
     [example_node ''tower1/conv'' ''Conv2D'' [],
      example_node ''tower1/relu'' ''Relu'' [(0, 0)],
      example_node ''tower1/pool'' ''MaxPool'' [(1, 0)],
      example_node ''tower2/conv'' ''Conv2D'' [],
      example_node ''tower2/relu'' ''Relu'' [(3, 0)],
      example_node ''gradients/pool1_grad'' ''MaxPoolGrad'' [(2, 0)],
      example_node ''gradients/relu1_grad'' ''ReluGrad'' [(5, 0), (1, 0)],
      example_node ''gradients/conv1_grad'' ''Conv2DBackpropFilter'' [(6, 0), (0, 0)],
      example_node ''gradients/relu2_grad'' ''ReluGrad'' [(4, 0)],
      example_node ''gradients/conv2_grad'' ''Conv2DBackpropFilter'' [(8, 0), (3, 0)],
      example_node ''gradients/apply'' ''ApplyGradientDescent'' [(7, 0), (9, 0)],
      example_node ''gradients/group'' ''NoOp'' [(10, 0)]]"

definition index_topos :: topos where
  "index_topos =
     \<lparr>get_order = (\<lambda>p. if p < 12 then int p else -1),
      get_ops = (\<lambda>i. if 0 \<le> i \<and> i < 12 then [nat i] else []),
      topo_size = 12,
      bw_starting_order = 5\<rparr>"

definition index_TOPOS :: "tfgraph \<Rightarrow> opid list \<Rightarrow> opid list \<Rightarrow> topos" where
  "index_TOPOS g seed_ops grad = index_topos"

definition two_towers_rewritten :: tfgraph where
  "two_towers_rewritten =
     [example_node ''tower1/conv'' ''Conv2D'' [],
      example_node ''tower1/relu'' ''Relu'' [(0, 0)],
      example_node ''tower1/pool'' ''MaxPool'' [(1, 0)],
      example_node ''tower2/conv'' ''Conv2D'' [],
      example_node ''tower2/relu'' ''Relu'' [(3, 0)],
      example_node ''gradients/pool1_grad'' ''MaxPoolGrad'' [(17, 0)],
      example_node ''gradients/relu1_grad'' ''ReluGrad'' [(5, 0), (15, 0)],
      example_node ''gradients/conv1_grad'' ''Conv2DBackpropFilter'' [(6, 0), (13, 0)],
      example_node ''gradients/relu2_grad'' ''ReluGrad'' [(4, 0)],
      example_node ''gradients/conv2_grad'' ''Conv2DBackpropFilter'' [(8, 0), (3, 0)],
      example_node ''gradients/apply'' ''ApplyGradientDescent'' [(7, 0), (9, 0)],
      example_node ''gradients/group'' ''NoOp'' [(10, 0)],
      swap_node ''lms/swapout'' [(0, 0)] [],
      swap_node ''lms/swapin'' [(12, 0)] [6],
      swap_node ''lms/swapout_1'' [(1, 0)] [],
      swap_node ''lms/swapin_1'' [(14, 0)] [5],
      swap_node ''lms/swapout_2'' [(2, 0)] [],
      swap_node ''lms/swapin_2'' [(16, 0)] []]"

text \<open>
  Two graphs in which the output of \<^verbatim>\<open>fw/conv\<close> is read by two operations of the backward
  phase.  In the first both have consumers of their own; in the second
  \<^verbatim>\<open>gradients/bias_grad\<close> has none.  Their order gives each operation its index as level;
  the backward phase starts at 2.  Then the object with fusion enabled after
  \<^verbatim>\<open>_build_gradient_ops\<close> on the first graph and after the frontier of the output of
  \<^verbatim>\<open>fw/conv\<close> is taken, and the second graph after a run with fusion enabled.
\<close>

definition fuse_graph :: tfgraph where
  "fuse_graph =
     [example_node ''fw/conv'' ''Conv2D'' [],
      example_node ''fw/loss'' ''Mean'' [(0, 0)],
      example_node ''gradients/loss_grad'' ''Fill'' [(1, 0)],
      example_node ''gradients/conv_grad'' ''Conv2DBackpropFilter'' [(2, 0), (0, 0)],
      example_node ''gradients/bias_grad'' ''BiasAddGrad'' [(2, 0), (0, 0)],
      example_node ''gradients/apply'' ''ApplyGradientDescent'' [(3, 0), (4, 0)]]"

definition sink_graph :: tfgraph where
  "sink_graph =
     [example_node ''fw/conv'' ''Conv2D'' [],
      example_node ''fw/loss'' ''Mean'' [(0, 0)],
      example_node ''gradients/loss_grad'' ''Fill'' [(1, 0)],
      example_node ''gradients/conv_grad'' ''Conv2DBackpropFilter'' [(2, 0), (0, 0)],
      example_node ''gradients/apply'' ''ApplyGradientDescent'' [(3, 0)],
      example_node ''gradients/bias_grad'' ''BiasAddGrad'' [(2, 0), (0, 0)]]"

definition six_topos :: topos where
  "six_topos =
     \<lparr>get_order = (\<lambda>p. if p < 6 then int p else -1),
      get_ops = (\<lambda>i. if 0 \<le> i \<and> i < 6 then [nat i] else []),
      topo_size = 6,
      bw_starting_order = 2\<rparr>"

definition six_TOPOS :: "tfgraph \<Rightarrow> opid list \<Rightarrow> opid list \<Rightarrow> topos" where
  "six_TOPOS g seed_ops grad = six_topos"

definition fuse_state :: lms where
  "fuse_state =
     default_lms\<lparr>graph := Some fuse_graph, fuse_swapins := True, grad_ops := [2, 3, 4, 5]\<rparr>"

definition fuse_state_frontier :: lms where
  "fuse_state_frontier = fuse_state\<lparr>ops_dict := [(4, [4, 5]), (3, [3, 5])]\<rparr>"

definition sink_rewritten :: tfgraph where
  "sink_rewritten =
     [example_node ''fw/conv'' ''Conv2D'' [],
      example_node ''fw/loss'' ''Mean'' [(0, 0)],
      example_node ''gradients/loss_grad'' ''Fill'' [(9, 0)],
      example_node ''gradients/conv_grad'' ''Conv2DBackpropFilter'' [(2, 0), (7, 0)],
      example_node ''gradients/apply'' ''ApplyGradientDescent'' [(3, 0)],
      example_node ''gradients/bias_grad'' ''BiasAddGrad'' [(2, 0), (0, 0)],
      swap_node ''lms/swapout'' [(0, 0)] [],
      swap_node ''lms/swapin'' [(6, 0)] [2],
      swap_node ''lms/swapout_1'' [(1, 0)] [],
      swap_node ''lms/swapin_1'' [(8, 0)] []]"
section \<open>Notions of the statements\<close>

text \<open>
  The forward walk of an operation as the object sees it: the entry of the memo table
  when there is one, the walk in the graph otherwise.
\<close>

definition memo_walk :: "lms \<Rightarrow> opid \<Rightarrow> opid list" where
  "memo_walk s p =
     (case map_of (ops_dict s) p of
        Some r \<Rightarrow> r
      | None \<Rightarrow> ge_get_forward_walk_ops (G s) [p] [] True)"

text \<open>Two states that differ in the memo table only, and see the same walks.\<close>

definition same_walks :: "lms \<Rightarrow> lms \<Rightarrow> bool" where
  "same_walks s s' = ((\<exists>d. s' = s\<lparr>ops_dict := d\<rparr>) \<and> (\<forall>p. memo_walk s' p = memo_walk s p))"

text \<open>
  An operation that qualifies as a control dependency of the direct-order strategy: the
  consumer \<open>src_op\<close> is in its forward walk and its name is not one of a conditional
  branch.
\<close>

definition on_path :: "lms \<Rightarrow> opid \<Rightarrow> opid \<Rightarrow> bool" where
  "on_path s src_op p =
     (src_op \<in> set (memo_walk s p) \<and> \<not> str_contains ''/cond/'' (op_name (G s ! p)))"

text \<open>
  A configuration that names something the graph does not have: an optimizer scope, the
  starting scope or a starting name whose regular expression is found in the name of no
  operation; an exclude or include scope of which the same holds, or an exclude or include
  type outside the atomic ones that no operation has.
\<close>

definition unmatched_start :: "regex \<Rightarrow> lms \<Rightarrow> tfgraph \<Rightarrow> bool" where
  "unmatched_start rx s g =
     (list_ex (\<lambda>scope. filter_ops_from_regex rx g (make_list_of_op g) (''^'' @ scope) = Inr [])
        (optimizer_scopes s)
      \<or> (case starting_scope s of
            None \<Rightarrow> False
          | Some scope \<Rightarrow>
              scope \<noteq> [] \<and> filter_ops_from_regex rx g (make_list_of_op g) (''^'' @ scope) = Inr [])
      \<or> (case starting_op_names s of
            None \<Rightarrow> False
          | Some nms \<Rightarrow>
              list_ex (\<lambda>nm. filter_ops_from_regex rx g (make_list_of_op g) (''^'' @ nm @ ''$'')
                             = Inr []) nms))"

definition unmatched_filter :: "regex \<Rightarrow> lms \<Rightarrow> tfgraph \<Rightarrow> bool" where
  "unmatched_filter rx s g =
     (list_ex (\<lambda>scope. get_name_scope_ops rx g (make_list_of_op g) scope = Inr [])
        (excl_scopes s @ incl_scopes s)
      \<or> list_ex (\<lambda>ty. ty \<notin> set ATOMIC_TYPES
                    \<and> filter (\<lambda>p. op_type (g ! p) = ty) (make_list_of_op g) = [])
          (excl_types s @ incl_types s))"

text \<open>
  A configuration all of whose scopes and names give regular expressions:
  \<^verbatim>\<open>re.compile\<close> raises for none of the patterns that the program builds from them.
\<close>

definition compiles :: "regex \<Rightarrow> string \<Rightarrow> bool" where
  "compiles rx pattern = (case rx pattern of None \<Rightarrow> False | Some search \<Rightarrow> True)"

definition valid_patterns :: "regex \<Rightarrow> lms \<Rightarrow> bool" where
  "valid_patterns rx s =
     (list_all (\<lambda>scope. compiles rx (''^'' @ scope)) (optimizer_scopes s)
      \<and> (case starting_scope s of
            None \<Rightarrow> True
          | Some scope \<Rightarrow> scope = [] \<or> compiles rx (''^'' @ scope))
      \<and> (case starting_op_names s of
            None \<Rightarrow> True
          | Some nms \<Rightarrow> list_all (\<lambda>nm. compiles rx (''^'' @ nm @ ''$'')) nms)
      \<and> list_all (\<lambda>scope. compiles rx (name_scope_regex scope)) (excl_scopes s @ incl_scopes s))"

text \<open>
  The object on which \<open>run\<close> works once it has taken the graph and found relocation
  enabled: the head of \<open>run\<close>, for a count of relocations other than zero.
\<close>

definition run_state :: "lms \<Rightarrow> tfgraph \<Rightarrow> lms" where
  "run_state s g = (if n_tensors s < 0 then s\<lparr>graph := Some g, n_tensors := 0\<rparr>
                    else s\<lparr>graph := Some g\<rparr>)"

text \<open>
  The test of \<open>run\<close> for a graph that is rewritten already, on the object and the graph
  given to \<open>run\<close>: the backward operations and the seeds are found, and an operation with
  \<^verbatim>\<open>lms/swap\<close> in its name is among those that the forward walks from the seeds give.
\<close>

definition detected_rewritten :: "regex \<Rightarrow> lms \<Rightarrow> tfgraph \<Rightarrow> bool" where
  "detected_rewritten rx s g =
     (case build_gradient_ops rx (run_state s g) of
        (Inl e, s1) \<Rightarrow> False
      | (Inr u, s1) \<Rightarrow>
          (case get_seed_ops rx s1 of
             Inl e \<Rightarrow> False
           | Inr seed_ops \<Rightarrow> already_updated g (fst (reachable_loop s1 seed_ops []))))"

text \<open>
  The bookkeeping of the planner's run, relative to the graph it starts from: \<open>n0\<close> is the
  number of operations of that graph, \<open>R0\<close> the operations reachable from the seeds and
  \<open>E0\<close> the excluded ones among them.  An operation is in reach when it is reachable or
  new; a tensor is an allowed input of a new operation when its producer is new, or
  reachable and not excluded.
\<close>

definition in_reach :: "nat \<Rightarrow> opid list \<Rightarrow> opid \<Rightarrow> bool" where
  "in_reach n0 R0 c = (c \<in> set R0 \<or> n0 \<le> c)"

definition allowed_src :: "nat \<Rightarrow> opid list \<Rightarrow> opid list \<Rightarrow> opid \<Rightarrow> bool" where
  "allowed_src n0 R0 E0 p = (p < n0 \<longrightarrow> p \<in> set R0 \<and> p \<notin> set E0)"

text \<open>
  The invariant of the graph: it has grown only, the consumers of operations in reach
  are in reach, and the new operations read allowed inputs only.
\<close>

definition graph_inv :: "nat \<Rightarrow> opid list \<Rightarrow> opid list \<Rightarrow> tfgraph \<Rightarrow> bool" where
  "graph_inv n0 R0 E0 g =
     (n0 \<le> length g
      \<and> (\<forall>c<length g. \<forall>t\<in>set (op_inputs (g ! c)). in_reach n0 R0 (fst t) \<longrightarrow> in_reach n0 R0 c)
      \<and> (\<forall>q<length g. n0 \<le> q \<longrightarrow> (\<forall>t\<in>set (op_inputs (g ! q)). allowed_src n0 R0 E0 (fst t))))"

text \<open>The invariant of the object: moreover the new and the excluded operations are in
  \<open>excl_ops\<close>.\<close>

definition state_inv :: "nat \<Rightarrow> opid list \<Rightarrow> opid list \<Rightarrow> lms \<Rightarrow> bool" where
  "state_inv n0 R0 E0 s =
     (graph_inv n0 R0 E0 (G s)
      \<and> (\<forall>q<length (G s). n0 \<le> q \<longrightarrow> q \<in> set (excl_ops s))
      \<and> set E0 \<subseteq> set (excl_ops s))"

text \<open>
  What every step of the planner keeps: the invariant of the graph whatever the outcome,
  the invariant of the object when the step returns.
\<close>

definition safe :: "nat \<Rightarrow> opid list \<Rightarrow> opid list \<Rightarrow> (error + 'a) \<times> lms \<Rightarrow> bool" where
  "safe n0 R0 E0 r =
     (graph_inv n0 R0 E0 (G (snd r)) \<and> (\<forall>x. fst r = Inr x \<longrightarrow> state_inv n0 R0 E0 (snd r)))"

text \<open>
  A graph is well formed when every input of an operation is an output of an operation of
  the graph.
\<close>

definition wf_graph :: "tfgraph \<Rightarrow> bool" where
  "wf_graph g =
     list_all (\<lambda>n. list_all (\<lambda>t. fst t < length g \<and> snd t < op_noutputs (g ! fst t))
                       (op_inputs n)) g"

text \<open>
  What the invariant gives in the end: a new operation reads no output of an operation of
  the first graph whose type is excluded.
\<close>

definition reads_no_atomic :: "tfgraph \<Rightarrow> tfgraph \<Rightarrow> bool" where
  "reads_no_atomic g g' =
     (\<forall>q<length g'. length g \<le> q \<longrightarrow>
        (\<forall>t\<in>set (op_inputs (g' ! q)). fst t < length g \<longrightarrow> op_type (g ! fst t) \<notin> set ATOMIC_TYPES))"

text \<open>
  The operation that \<^verbatim>\<open>tf.identity(t, name=nm)\<close> adds to a graph on a device, and what the
  fusion of swap-ins is expected to make of a graph: the operations of \<open>fused\<close> read the
  output of the new swap-in operation wherever they read \<open>t\<close>, every other input and
  every other operation is as before, the swap-out operation reads \<open>t\<close> and the swap-in
  operation reads the swap-out operation.
\<close>

definition identity_node :: "tfgraph \<Rightarrow> string \<Rightarrow> tensor \<Rightarrow> string \<Rightarrow> node" where
  "identity_node g dev t nm =
     \<lparr>op_name = unique_name g nm, op_type = ''Identity'', op_inputs = [t],
      op_control_inputs = [], op_noutputs = 1, op_device = dev\<rparr>"

definition fused_graph :: "tfgraph \<Rightarrow> string \<Rightarrow> tensor \<Rightarrow> opid list \<Rightarrow> tfgraph" where
  "fused_graph g dev t fused =
     map (\<lambda>(p, nd). if p \<in> set fused
                     then nd\<lparr>op_inputs := map (\<lambda>u. if u = t then (Suc (length g), 0) else u)
                                              (op_inputs nd)\<rparr>
                     else nd)
       (zip [0..<length g] g)
     @ [identity_node g dev t ''lms/swapout'',
        (identity_node (g @ [identity_node g dev t ''lms/swapout'']) dev t ''lms/swapin'')
          \<lparr>op_inputs := [(length g, 0)]\<rparr>]"

text \<open>
  The object after the swap-out operation of \<open>t\<close> is added, and after the swap-in
  operation is added and connected for the operations of \<open>fused\<close>.
\<close>

definition swapped_out :: "lms \<Rightarrow> tensor \<Rightarrow> lms" where
  "swapped_out s t =
     s\<lparr>graph := Some (G s @ [identity_node (G s) (cpu_device s) t ''lms/swapout'']),
       excl_ops := set_add (length (G s)) (excl_ops s),
       incpu_count := incpu_count s + 1\<rparr>"

definition fused_state :: "lms \<Rightarrow> tensor \<Rightarrow> opid list \<Rightarrow> lms" where
  "fused_state s t fused =
     s\<lparr>graph := Some (fused_graph (G s) (cpu_device s) t fused),
       excl_ops := set_add (Suc (length (G s))) (set_add (length (G s)) (excl_ops s)),
       incpu_count := incpu_count s + 1\<rparr>"

text \<open>
  The operations of a frontier that the fusion takes: those with an order above 0, the
  set \<^verbatim>\<open>fuse_bw_frontier_ops\<close> of the source.
\<close>

definition fusable :: "topos \<Rightarrow> opid list \<Rightarrow> opid list" where
  "fusable T bw = filter (\<lambda>p. 0 < get_order T p) bw"
section \<open>Basic facts about the state\<close>

lemma G_simps [simp]:
  "G (set_G g s) = g"
  "G (s\<lparr>graph := Some g\<rparr>) = g"
  "G (s\<lparr>ops_dict := d\<rparr>) = G s"
  "G (s\<lparr>excl_ops := e\<rparr>) = G s"
  "G (s\<lparr>incl_ops := e\<rparr>) = G s"
  "G (s\<lparr>grad_ops := e\<rparr>) = G s"
  "G (s\<lparr>incpu_count := c\<rparr>) = G s"
  "G (s\<lparr>n_tensors := c\<rparr>) = G s"
  by (simp_all add: G_def set_G_def)

lemma set_G_fields [simp]:
  "grad_ops (set_G g s) = grad_ops s"
  "excl_ops (set_G g s) = excl_ops s"
  "incl_ops (set_G g s) = incl_ops s"
  "ops_dict (set_G g s) = ops_dict s"
  "incpu_count (set_G g s) = incpu_count s"
  "n_tensors (set_G g s) = n_tensors s"
  "cpu_device (set_G g s) = cpu_device s"
  "graph (set_G g s) = Some g"
  by (simp_all add: set_G_def)

lemma same_walks_refl [simp]: "same_walks s s"
proof -
  have "s = s\<lparr>ops_dict := ops_dict s\<rparr>" by simp
  then show ?thesis unfolding same_walks_def by blast
qed

lemma same_walks_trans:
  assumes "same_walks s s'" and "same_walks s' s''"
  shows "same_walks s s''"
proof -
  from assms obtain d d' where "s' = s\<lparr>ops_dict := d\<rparr>" and "s'' = s'\<lparr>ops_dict := d'\<rparr>"
    unfolding same_walks_def by blast
  then have "s'' = s\<lparr>ops_dict := d'\<rparr>" by simp
  moreover from assms have "\<forall>p. memo_walk s'' p = memo_walk s p"
    unfolding same_walks_def by simp
  ultimately show ?thesis unfolding same_walks_def by blast
qed

lemma same_walks_G: "same_walks s s' \<Longrightarrow> G s' = G s"
  unfolding same_walks_def by auto

lemma same_walks_graph: "same_walks s s' \<Longrightarrow> graph s' = graph s"
  unfolding same_walks_def by auto

lemma same_walks_fields:
  assumes "same_walks s s'"
  shows "grad_ops s' = grad_ops s" "excl_ops s' = excl_ops s" "incl_ops s' = incl_ops s"
    "incpu_count s' = incpu_count s" "n_tensors s' = n_tensors s"
    "swap_branches s' = swap_branches s" "branch_threshold s' = branch_threshold s"
    "fuse_swapins s' = fuse_swapins s" "cpu_device s' = cpu_device s"
    "ctrld_strategy s' = ctrld_strategy s" "lb s' = lb s" "ub s' = ub s"
  using assms unfolding same_walks_def by auto

lemma get_forward_walk_ops_fst:
  "fst (get_forward_walk_ops s p True) = memo_walk s p"
  "fst (get_forward_walk_ops s p False) = set_diff (memo_walk s p) [p]"
  by (simp_all add: get_forward_walk_ops_def memo_walk_def Let_def split: option.splits)

lemma get_forward_walk_ops_same_walks:
  "same_walks s (snd (get_forward_walk_ops s p inclusive))"
proof (cases "map_of (ops_dict s) p")
  case None
  then have "snd (get_forward_walk_ops s p inclusive)
      = s\<lparr>ops_dict := (p, ge_get_forward_walk_ops (G s) [p] [] True) # ops_dict s\<rparr>"
    by (simp add: get_forward_walk_ops_def Let_def)
  moreover have "memo_walk (s\<lparr>ops_dict := (p, ge_get_forward_walk_ops (G s) [p] [] True) # ops_dict s\<rparr>) q
      = memo_walk s q" for q
    using None by (simp add: memo_walk_def split: option.splits)
  ultimately show ?thesis
    unfolding same_walks_def
    by (intro conjI exI [of _ "(p, ge_get_forward_walk_ops (G s) [p] [] True) # ops_dict s"])
       simp_all
next
  case (Some r)
  then have "snd (get_forward_walk_ops s p inclusive) = s"
    by (simp add: get_forward_walk_ops_def)
  then show ?thesis by simp
qed

section \<open>The scan of the direct-order strategy\<close>

lemma on_chain_rule_path_spec:
  "fst (on_chain_rule_path s src_op ps) = filter (\<lambda>p. src_op \<in> set (memo_walk s p)) ps
   \<and> same_walks s (snd (on_chain_rule_path s src_op ps))"
proof (induction ps arbitrary: s)
  case Nil
  show ?case by simp
next
  case (Cons p ps)
  let ?s1 = "snd (get_forward_walk_ops s p True)"
  have sw: "same_walks s ?s1" by (rule get_forward_walk_ops_same_walks)
  then have mw: "memo_walk ?s1 q = memo_walk s q" for q
    unfolding same_walks_def by simp
  from Cons.IH [of ?s1] sw show ?case
    by (auto simp: case_prod_unfold Let_def get_forward_walk_ops_fst mw
             intro: same_walks_trans)
qed

lemma on_path_same_walks: "same_walks s s' \<Longrightarrow> on_path s' src_op p = on_path s src_op p"
  unfolding on_path_def same_walks_def by auto

lemma direct_order_scan_spec:
  "same_walks s (snd (direct_order_scan T s src_op levels)) \<and>
   (fst (fst (direct_order_scan T s src_op levels)) = [] \<longrightarrow>
      snd (fst (direct_order_scan T s src_op levels)) = -1 \<and>
      (\<forall>j\<in>set levels. filter (on_path s src_op) (get_ops T j) = [])) \<and>
   (fst (fst (direct_order_scan T s src_op levels)) \<noteq> [] \<longrightarrow>
      (\<exists>pre post. levels = pre @ snd (fst (direct_order_scan T s src_op levels)) # post \<and>
         (\<forall>j\<in>set pre. filter (on_path s src_op) (get_ops T j) = []) \<and>
         fst (fst (direct_order_scan T s src_op levels))
           = filter (on_path s src_op)
               (get_ops T (snd (fst (direct_order_scan T s src_op levels))))))"
proof (induction levels arbitrary: s)
  case Nil
  show ?case by simp
next
  case (Cons i levels)
  let ?s1 = "snd (on_chain_rule_path s src_op (get_ops T i))"
  let ?c = "filter (on_path s src_op) (get_ops T i)"
  have sw: "same_walks s ?s1" using on_chain_rule_path_spec by blast
  have c: "filter (\<lambda>p. \<not> str_contains ''/cond/'' (op_name (G ?s1 ! p)))
             (fst (on_chain_rule_path s src_op (get_ops T i))) = ?c"
    using same_walks_G [OF sw]
    by (simp add: on_chain_rule_path_spec on_path_def [abs_def] conj_commute)
  show ?case
  proof (cases "?c = []")
    case True
    then have eq: "direct_order_scan T s src_op (i # levels) = direct_order_scan T ?s1 src_op levels"
      using c by (simp add: case_prod_unfold Let_def)
    have op: "on_path ?s1 src_op = on_path s src_op"
      using on_path_same_walks [OF sw] by blast
    from Cons.IH [of ?s1] have IH1: "same_walks ?s1 (snd (direct_order_scan T ?s1 src_op levels))"
      by blast
    show ?thesis
      unfolding eq
    proof (intro conjI impI)
      show "same_walks s (snd (direct_order_scan T ?s1 src_op levels))"
        using sw IH1 by (rule same_walks_trans)
    next
      assume e: "fst (fst (direct_order_scan T ?s1 src_op levels)) = []"
      with Cons.IH [of ?s1] show "snd (fst (direct_order_scan T ?s1 src_op levels)) = -1"
        by blast
      from e Cons.IH [of ?s1] True
      show "\<forall>j\<in>set (i # levels). filter (on_path s src_op) (get_ops T j) = []"
        unfolding op by simp
    next
      assume ne: "fst (fst (direct_order_scan T ?s1 src_op levels)) \<noteq> []"
      let ?r = "direct_order_scan T ?s1 src_op levels"
      from ne Cons.IH [of ?s1] obtain pre post where
        pp: "levels = pre @ snd (fst ?r) # post"
            "\<forall>j\<in>set pre. filter (on_path s src_op) (get_ops T j) = []"
            "fst (fst ?r) = filter (on_path s src_op) (get_ops T (snd (fst ?r)))"
        unfolding op by blast
      from pp True have "i # levels = (i # pre) @ snd (fst ?r) # post \<and>
            (\<forall>j\<in>set (i # pre). filter (on_path s src_op) (get_ops T j) = []) \<and>
            fst (fst ?r) = filter (on_path s src_op) (get_ops T (snd (fst ?r)))"
        by simp
      then show "\<exists>pre post. i # levels = pre @ snd (fst ?r) # post \<and>
            (\<forall>j\<in>set pre. filter (on_path s src_op) (get_ops T j) = []) \<and>
            fst (fst ?r) = filter (on_path s src_op) (get_ops T (snd (fst ?r)))"
        by blast
    qed
  next
    case False
    then have eq: "direct_order_scan T s src_op (i # levels) = ((?c, i), ?s1)"
      using c by (simp add: case_prod_unfold Let_def)
    have "i # levels = [] @ i # levels" by simp
    then show ?thesis
      unfolding eq using False sw by fastforce
  qed
qed

section \<open>The constructor's strategy argument\<close>

text \<open>
  C10.  A strategy string other than \<^verbatim>\<open>"chain_rule"\<close> and \<^verbatim>\<open>"direct_order"\<close> raises no
  error of its own: the constructor answers exactly as it does for \<^verbatim>\<open>"chain_rule"\<close>, and,
  whenever an optimizer scope is given, it returns an object whose strategy is the chain
  rule.  The two objects are equal, so every method behaves alike on them.
\<close>

theorem init_unrecognized_strategy:
  assumes "st \<noteq> ''chain_rule''" and "st \<noteq> ''direct_order''"
  shows "init (a\<lparr>arg_ctrld_strategy := st\<rparr>) = init (a\<lparr>arg_ctrld_strategy := ''chain_rule''\<rparr>)
         \<and> (arg_optimizer_scopes a \<noteq> [] \<longrightarrow>
              (\<exists>s. init (a\<lparr>arg_ctrld_strategy := st\<rparr>) = Inr s \<and> ctrld_strategy s = CHAIN_RULE))"
  using assms by (simp add: init_def)

theorem init_unrecognized_strategy_witness:
  "init (default_args\<lparr>arg_ctrld_strategy := ''fastest''\<rparr>)
     = init (default_args\<lparr>arg_ctrld_strategy := ''chain_rule''\<rparr>)
   \<and> (\<exists>s. init (default_args\<lparr>arg_ctrld_strategy := ''fastest''\<rparr>) = Inr s
            \<and> ctrld_strategy s = CHAIN_RULE)"
proof -
  have "arg_optimizer_scopes default_args \<noteq> []"
    by (simp add: default_args_def)
  moreover have "''fastest'' \<noteq> ''chain_rule''" and "''fastest'' \<noteq> ''direct_order''"
    by simp_all
  ultimately show ?thesis
    using init_unrecognized_strategy [of "''fastest''" default_args] by blast
qed

section \<open>The search strategies\<close>

subsection \<open>The levels of the direct-order strategy\<close>

lemma direct_order_levels_set:
  "set (direct_order_levels fw_order src_order lower_b upper_b)
     = {max (src_order - upper_b) fw_order + 1 .. src_order - lower_b - 1}"
  by (simp add: direct_order_levels_def Let_def)

lemma direct_order_levels_sorted:
  "sorted_wrt (>) (direct_order_levels fw_order src_order lower_b upper_b)"
proof -
  have "sorted_wrt (<) [max (src_order - upper_b) fw_order + 1 .. src_order - lower_b - 1]"
    by (simp add: strict_sorted_iff)
  then show ?thesis
    by (simp add: direct_order_levels_def Let_def sorted_wrt_rev)
qed

lemma direct_order_levels_hd:
  assumes "direct_order_levels fw_order src_order lower_b upper_b \<noteq> []"
  shows "hd (direct_order_levels fw_order src_order lower_b upper_b) = src_order - lower_b - 1"
proof -
  let ?a = "max (src_order - upper_b) fw_order + 1"
  let ?b = "src_order - lower_b - 1"
  from assms have le: "?a \<le> ?b" by (simp add: direct_order_levels_def Let_def)
  then have "[?a..?b] = [?a..?b - 1] @ [?b]" by (rule upto_rec2)
  then have "rev [?a..?b] = ?b # rev [?a..?b - 1]" by simp
  then show ?thesis by (simp add: direct_order_levels_def Let_def)
qed

lemma sorted_wrt_greater_prefix:
  assumes "sorted_wrt (>) (pre @ (i::int) # post)" and "j \<in> set (pre @ i # post)" and "i < j"
  shows "j \<in> set pre"
proof -
  from assms(1) have "\<forall>y\<in>set post. y < i"
    by (simp add: sorted_wrt_append)
  with assms(2,3) show ?thesis by auto
qed

text \<open>
  C6.  The direct-order strategy goes through the levels of \<open>direct_order_levels\<close>.
  They strictly decrease; the first one is the level of the consumer minus \<open>lower_b\<close>
  minus one; each lies above the level of \<open>fw_op\<close> and not below the level of the
  consumer minus \<open>upper_b\<close> plus one.  The result is an operation of the first of these
  levels that holds a qualifying operation (the consumer is in its forward walk, its name
  has no \<^verbatim>\<open>/cond/\<close>), together with that level; it is \<open>(None, -1)\<close> when no level holds
  one.
\<close>

theorem do_direct_order_spec:
  fixes T s fw_op src_op lower_b upper_b
  defines "levels \<equiv> direct_order_levels (get_order T fw_op) (get_order T src_op) lower_b upper_b"
  shows "sorted_wrt (>) levels
       \<and> (levels \<noteq> [] \<longrightarrow> hd levels = get_order T src_op - lower_b - 1)
       \<and> (\<forall>i\<in>set levels. get_order T fw_op < i \<and> get_order T src_op - upper_b + 1 \<le> i)
       \<and> (case fst (do_direct_order T s fw_op src_op lower_b upper_b) of
            (None, i) \<Rightarrow>
              i = -1 \<and> (\<forall>j\<in>set levels. \<forall>q\<in>set (get_ops T j). \<not> on_path s src_op q)
          | (Some p, i) \<Rightarrow>
              i \<in> set levels \<and> p \<in> set (get_ops T i) \<and> on_path s src_op p \<and>
              (\<forall>j\<in>set levels. i < j \<longrightarrow> (\<forall>q\<in>set (get_ops T j). \<not> on_path s src_op q)))"
proof (intro conjI)
  show "sorted_wrt (>) levels"
    unfolding levels_def by (rule direct_order_levels_sorted)
  show "levels \<noteq> [] \<longrightarrow> hd levels = get_order T src_op - lower_b - 1"
    unfolding levels_def using direct_order_levels_hd by blast
  show "\<forall>i\<in>set levels. get_order T fw_op < i \<and> get_order T src_op - upper_b + 1 \<le> i"
    unfolding levels_def direct_order_levels_set by auto
  let ?r = "direct_order_scan T s src_op levels"
  have re: "fst (do_direct_order T s fw_op src_op lower_b upper_b)
      = (case fst (fst ?r) of [] \<Rightarrow> (None, -1) | p # _ \<Rightarrow> (Some p, snd (fst ?r)))"
    by (simp add: do_direct_order_def levels_def Let_def case_prod_unfold split: list.splits)
  show "case fst (do_direct_order T s fw_op src_op lower_b upper_b) of
            (None, i) \<Rightarrow>
              i = -1 \<and> (\<forall>j\<in>set levels. \<forall>q\<in>set (get_ops T j). \<not> on_path s src_op q)
          | (Some p, i) \<Rightarrow>
              i \<in> set levels \<and> p \<in> set (get_ops T i) \<and> on_path s src_op p \<and>
              (\<forall>j\<in>set levels. i < j \<longrightarrow> (\<forall>q\<in>set (get_ops T j). \<not> on_path s src_op q))"
  proof (cases "fst (fst ?r)")
    case Nil
    with direct_order_scan_spec [of s T src_op levels]
    have "\<forall>j\<in>set levels. filter (on_path s src_op) (get_ops T j) = []" by blast
    then have "\<forall>j\<in>set levels. \<forall>q\<in>set (get_ops T j). \<not> on_path s src_op q"
      by (simp add: filter_empty_conv)
    with Nil show ?thesis by (simp add: re)
  next
    case (Cons p ps)
    define i where "i = snd (fst ?r)"
    from Cons have ne: "fst (fst ?r) \<noteq> []" by simp
    with direct_order_scan_spec [of s T src_op levels] obtain pre post where
      pp: "levels = pre @ i # post"
          "\<forall>j\<in>set pre. filter (on_path s src_op) (get_ops T j) = []"
          "fst (fst ?r) = filter (on_path s src_op) (get_ops T i)"
      unfolding i_def by blast
    from pp(3) Cons have "filter (on_path s src_op) (get_ops T i) = p # ps" by simp
    then have "p \<in> set (filter (on_path s src_op) (get_ops T i))"
      by (metis list.set_intros(1))
    then have p: "p \<in> set (get_ops T i)" "on_path s src_op p" by simp_all
    have "i \<in> set (pre @ i # post)" by simp
    then have mem: "i \<in> set levels" unfolding pp(1) .
    have srt: "sorted_wrt (>) (pre @ i # post)"
      using direct_order_levels_sorted [of "get_order T fw_op" "get_order T src_op" lower_b upper_b]
      unfolding levels_def [symmetric] pp(1) .
    have "\<forall>j\<in>set levels. i < j \<longrightarrow> (\<forall>q\<in>set (get_ops T j). \<not> on_path s src_op q)"
    proof (intro ballI impI)
      fix j q assume j: "j \<in> set levels" "i < j" and q: "q \<in> set (get_ops T j)"
      from j(1) have "j \<in> set (pre @ i # post)" unfolding pp(1) .
      with srt have "j \<in> set pre" using j(2) by (rule sorted_wrt_greater_prefix)
      with pp(2) have "filter (on_path s src_op) (get_ops T j) = []" by blast
      with q show "\<not> on_path s src_op q" by (simp add: filter_empty_conv)
    qed
    with Cons p mem show ?thesis by (simp add: re i_def)
  qed
qed


text \<open>
  On the example graph, for the consumer \<^verbatim>\<open>gradients/conv_grad\<close> of the output of
  \<^verbatim>\<open>fw/conv\<close>: the levels are 3, 2, 1 and the first one already holds
  \<^verbatim>\<open>gradients/loss_grad\<close>.
\<close>

theorem do_direct_order_spec_witness:
  "fst (do_direct_order example_topos example_state 0 5 1 10000) = (Some 3, 3)
   \<and> direct_order_levels (get_order example_topos 0) (get_order example_topos 5) 1 10000
       = [3, 2, 1]
   \<and> 3 \<in> set (get_ops example_topos 3) \<and> on_path example_state 5 3"
proof -
  have e: "fst (do_direct_order example_topos example_state 0 5 1 10000) = (Some 3, 3)"
    by code_simp
  have l: "direct_order_levels (get_order example_topos 0) (get_order example_topos 5) 1 10000
       = [3, 2, 1]"
    by code_simp
  from do_direct_order_spec [where T = example_topos and s = example_state and fw_op = 0
      and src_op = 5 and lower_b = 1 and upper_b = 10000]
  have "3 \<in> set (get_ops example_topos 3) \<and> on_path example_state 5 3"
    unfolding e by simp
  with e l show ?thesis by blast
qed

subsection \<open>A window with the lower bound above the upper bound\<close>

lemma direct_order_levels_degenerate:
  "upper_b < lower_b \<Longrightarrow> direct_order_levels fw_order src_order lower_b upper_b = []"
  by (simp add: direct_order_levels_def Let_def)

text \<open>
  C8.  When \<open>lower_b\<close> is greater than \<open>upper_b\<close>, both strategies return \<open>(None, -1)\<close>,
  for every pair of operations and whatever is left of the loop count; the state is
  untouched.
\<close>

theorem degenerate_window_no_candidate:
  assumes "upper_b < lower_b"
  shows "do_direct_order T s fw_op bw_op lower_b upper_b = ((None, -1), s)
       \<and> do_chain_rule T fuel s fw_op bw_op lower_b upper_b = (Inr (None, -1), s)"
proof -
  have d: "do_direct_order T s fw_op bw_op lower_b upper_b = ((None, -1), s)"
    using assms by (simp add: do_direct_order_def direct_order_levels_degenerate)
  have "chain_rule_loop (G s) T (grad_ops s) (get_order T fw_op) (get_order T bw_op) fuel
          [fw_op] [] [] [] lower_b upper_b = Inr []"
    using assms by (cases fuel) simp_all
  then have "do_chain_rule T fuel s fw_op bw_op lower_b upper_b = (Inr (None, -1), s)"
    using d by (simp add: do_chain_rule_def Let_def)
  with d show ?thesis by simp
qed

theorem degenerate_window_no_candidate_witness:
  "do_direct_order example_topos example_state 0 5 5 2 = ((None, -1), example_state)
   \<and> do_chain_rule example_topos 10 example_state 0 5 5 2 = (Inr (None, -1), example_state)"
  using degenerate_window_no_candidate [of 2 5 example_topos example_state 0 5 10] by simp

subsection \<open>Where the direct order replaces the chain rule\<close>

text \<open>
  C7.  For a \<open>fw_op\<close> of the backward phase the search is the direct-order strategy,
  whatever strategy \<open>st\<close> the object is configured with.  And the chain-rule strategy
  called with the level of \<open>bw_op\<close> minus \<open>lower_b\<close> below \<open>bw_starting_order\<close> returns what
  the direct-order strategy returns for the same arguments.
\<close>

theorem direct_order_forced:
  "(fw_op \<in> set (grad_ops s) \<longrightarrow>
      find_control_dependency T fuel (s\<lparr>ctrld_strategy := st\<rparr>) fw_op bw_op
        = (case do_direct_order T (s\<lparr>ctrld_strategy := st\<rparr>) fw_op bw_op
                  (control_dependency_lb T s fw_op bw_op) (ub s) of
             (re, s1) \<Rightarrow> (Inr re, s1)))
   \<and> (get_order T bw_op - lower_b < bw_starting_order T \<longrightarrow>
        do_chain_rule T fuel s fw_op bw_op lower_b upper_b
          = (case do_direct_order T s fw_op bw_op lower_b upper_b of
               (re, s1) \<Rightarrow> (Inr re, s1)))"
  by (simp add: find_control_dependency_def do_chain_rule_def control_dependency_lb_def Let_def)

theorem direct_order_forced_witness:
  "fst (find_control_dependency example_topos 10
          (example_state\<lparr>ctrld_strategy := CHAIN_RULE\<rparr>) 3 6) = Inr (Some 4, 4)
   \<and> fst (do_chain_rule example_topos 10 example_state 0 4 2 10000) = Inr (Some 1, 1)"
proof -
  have g: "3 \<in> set (grad_ops example_state)"
    by (simp add: example_state_def)
  have b: "get_order example_topos 4 - 2 < bw_starting_order example_topos"
    by (simp add: example_topos_def)
  have l: "control_dependency_lb example_topos example_state 3 6 = 1"
    and u: "ub example_state = 10000"
    by (simp_all add: control_dependency_lb_def example_topos_def example_state_def default_lms_def)
  have d1: "do_direct_order example_topos (example_state\<lparr>ctrld_strategy := CHAIN_RULE\<rparr>) 3 6 1 10000
      = ((Some 4, 4), snd (do_direct_order example_topos
            (example_state\<lparr>ctrld_strategy := CHAIN_RULE\<rparr>) 3 6 1 10000))"
    by code_simp
  have d2: "do_direct_order example_topos example_state 0 4 2 10000
      = ((Some 1, 1), snd (do_direct_order example_topos example_state 0 4 2 10000))"
    by code_simp
  from direct_order_forced [where fw_op = 3 and bw_op = 6 and s = example_state
      and T = example_topos and fuel = 10 and st = CHAIN_RULE] g
  have f1: "find_control_dependency example_topos 10
          (example_state\<lparr>ctrld_strategy := CHAIN_RULE\<rparr>) 3 6
        = (case do_direct_order example_topos (example_state\<lparr>ctrld_strategy := CHAIN_RULE\<rparr>) 3 6
                  1 10000 of (re, s1) \<Rightarrow> (Inr re, s1))"
    unfolding l u by blast
  from direct_order_forced [where fw_op = 0 and bw_op = 4 and s = example_state
      and T = example_topos and fuel = 10 and lower_b = 2 and upper_b = 10000] b
  have f2: "do_chain_rule example_topos 10 example_state 0 4 2 10000
          = (case do_direct_order example_topos example_state 0 4 2 10000 of
               (re, s1) \<Rightarrow> (Inr re, s1))"
    by blast
  from f1 f2 show ?thesis
    by (simp add: d1 [THEN arg_cong, of fst] d2 [THEN arg_cong, of fst] case_prod_unfold)
qed

section \<open>The entry point before the planner\<close>

subsection \<open>Forward walks stay inside the graph\<close>

lemma forward_waves_subset:
  "set (forward_waves g within result wave) \<subseteq> set result \<union> {..<length g}"
proof (induction g within result wave rule: forward_waves.induct)
  case (1 g within result wave)
  show ?case
  proof (cases "wave = []")
    case True
    then show ?thesis by (simp add: forward_waves.simps)
  next
    case False
    with 1 have "set (forward_waves g within (result @ next_wave g within result wave)
                   (next_wave g within result wave))
                 \<subseteq> set (result @ next_wave g within result wave) \<union> {..<length g}"
      by simp
    moreover have "forward_waves g within result wave
        = forward_waves g within (result @ next_wave g within result wave)
            (next_wave g within result wave)"
      using False by (subst forward_waves.simps) simp
    ultimately show ?thesis
      using set_next_wave [of g within result wave] by auto
  qed
qed

lemma ge_get_forward_walk_ops_subset:
  "set (ge_get_forward_walk_ops g seed_ops within inclusive) \<subseteq> set seed_ops \<union> {..<length g}"
proof -
  have "set (remdups (if within \<noteq> [] then set_inter seed_ops within else seed_ops)) \<subseteq> set seed_ops"
    by (auto simp: set_inter_def)
  with forward_waves_subset [of g within "remdups (if within \<noteq> [] then set_inter seed_ops within else seed_ops)"
        "remdups (if within \<noteq> [] then set_inter seed_ops within else seed_ops)"]
  show ?thesis
    by (auto simp: ge_get_forward_walk_ops_def Let_def set_diff_def)
qed

subsection \<open>The steps of \<open>run\<close> before the planner\<close>

lemma filter_ops_from_regex_cases:
  obtains (bad) "rx pattern = None" "filter_ops_from_regex rx g ops pattern = Inl ReError"
  | (good) search where "rx pattern = Some search"
      "filter_ops_from_regex rx g ops pattern = Inr (filter (\<lambda>p. search (op_name (g ! p))) ops)"
  by (cases "rx pattern") (auto simp: filter_ops_from_regex_def)

lemma filter_ops_from_regex_compiles:
  "filter_ops_from_regex rx g ops pattern = Inl e \<Longrightarrow> e = ReError \<and> \<not> compiles rx pattern"
  by (cases "rx pattern") (auto simp: filter_ops_from_regex_def compiles_def)

lemma filter_ops_from_regex_subset:
  "filter_ops_from_regex rx g ops pattern = Inr r \<Longrightarrow> set r \<subseteq> set ops"
  by (cases "rx pattern") (auto simp: filter_ops_from_regex_def)

lemma filter_ops_from_regex_mono:
  assumes "filter_ops_from_regex rx g ops pattern = Inr []" and "set ops' \<subseteq> set ops"
  shows "filter_ops_from_regex rx g ops' pattern = Inr []"
  using assms
  by (cases "rx pattern") (auto simp: filter_ops_from_regex_def filter_empty_conv)

lemma build_gradient_ops_loop_spec:
  "snd (build_gradient_ops_loop rx scopes s)
     = s\<lparr>grad_ops := grad_ops (snd (build_gradient_ops_loop rx scopes s))\<rparr>"
proof (induction scopes arbitrary: s)
  case Nil
  show ?case by simp
next
  case (Cons scope scopes)
  show ?case
  proof (cases "filter_ops_from_regex rx (G s) (make_list_of_op (G s)) (''^'' @ scope)")
    case (Inl e)
    then show ?thesis by simp
  next
    case (Inr ops)
    show ?thesis
    proof (cases "ops = []")
      case True
      with Inr show ?thesis by simp
    next
      case False
      let ?s1 = "s\<lparr>grad_ops := set_union (grad_ops s) ops\<rparr>"
      have eq: "build_gradient_ops_loop rx (scope # scopes) s = build_gradient_ops_loop rx scopes ?s1"
        using Inr False by simp
      have "snd (build_gradient_ops_loop rx scopes ?s1)
          = ?s1\<lparr>grad_ops := grad_ops (snd (build_gradient_ops_loop rx scopes ?s1))\<rparr>"
        by (rule Cons.IH)
      also have "\<dots> = s\<lparr>grad_ops := grad_ops (snd (build_gradient_ops_loop rx scopes ?s1))\<rparr>"
        by simp
      finally show ?thesis unfolding eq .
    qed
  qed
qed

text \<open>
  The outcome of each step: an error, which is a \<^verbatim>\<open>ValueError\<close> when the patterns are
  regular expressions, or a result, and then every pattern was found in a name.
\<close>

lemma build_gradient_ops_loop_result:
  "(\<exists>e. fst (build_gradient_ops_loop rx scopes s) = Inl e
        \<and> ((\<forall>scope\<in>set scopes. compiles rx (''^'' @ scope)) \<longrightarrow> (\<exists>msg. e = ValueError msg)))
   \<or> (fst (build_gradient_ops_loop rx scopes s) = Inr ()
       \<and> (\<forall>scope\<in>set scopes.
             filter_ops_from_regex rx (G s) (make_list_of_op (G s)) (''^'' @ scope) \<noteq> Inr []))"
proof (induction scopes arbitrary: s)
  case Nil
  show ?case by simp
next
  case (Cons scope scopes)
  show ?case
  proof (cases "filter_ops_from_regex rx (G s) (make_list_of_op (G s)) (''^'' @ scope)")
    case (Inl e)
    from filter_ops_from_regex_compiles [OF Inl] Inl show ?thesis by simp
  next
    case (Inr ops)
    show ?thesis
    proof (cases "ops = []")
      case True
      with Inr show ?thesis by simp
    next
      case False
      let ?s1 = "s\<lparr>grad_ops := set_union (grad_ops s) ops\<rparr>"
      from Cons.IH [of ?s1] Inr False show ?thesis by auto
    qed
  qed
qed

lemma starting_names_loop_result:
  "(\<exists>e. starting_names_loop rx g nms seed_ops = Inl e
        \<and> ((\<forall>nm\<in>set nms. compiles rx (''^'' @ nm @ ''$'')) \<longrightarrow> (\<exists>msg. e = ValueError msg)))
   \<or> (\<exists>seeds. starting_names_loop rx g nms seed_ops = Inr seeds
        \<and> set seeds \<subseteq> set seed_ops \<union> {..<length g}
        \<and> (\<forall>nm\<in>set nms.
              filter_ops_from_regex rx g (make_list_of_op g) (''^'' @ nm @ ''$'') \<noteq> Inr []))"
proof (induction nms arbitrary: seed_ops)
  case Nil
  show ?case by simp
next
  case (Cons nm nms)
  show ?case
  proof (cases "filter_ops_from_regex rx g (make_list_of_op g) (''^'' @ nm @ ''$'')")
    case (Inl e)
    from filter_ops_from_regex_compiles [OF Inl] Inl show ?thesis by simp
  next
    case (Inr ops)
    show ?thesis
    proof (cases "ops = []")
      case True
      with Inr show ?thesis by simp
    next
      case False
      have sub: "set (set_union seed_ops ops) \<subseteq> set seed_ops \<union> {..<length g}"
        using filter_ops_from_regex_subset [OF Inr]
        by (auto simp: set_union_def make_list_of_op_def)
      from Cons.IH [of "set_union seed_ops ops"] Inr False sub
      show ?thesis by simp blast
    qed
  qed
qed

lemma starting_scope_ops_result:
  "(\<exists>e. starting_scope_ops rx g sc = Inl e
        \<and> ((\<forall>scope. sc = Some scope \<and> scope \<noteq> [] \<longrightarrow> compiles rx (''^'' @ scope))
             \<longrightarrow> (\<exists>msg. e = ValueError msg)))
   \<or> (\<exists>seeds. starting_scope_ops rx g sc = Inr seeds \<and> set seeds \<subseteq> {..<length g}
        \<and> (\<forall>scope. sc = Some scope \<and> scope \<noteq> [] \<longrightarrow>
               filter_ops_from_regex rx g (make_list_of_op g) (''^'' @ scope) \<noteq> Inr []))"
proof (cases sc)
  case None
  then show ?thesis by (simp add: starting_scope_ops_def)
next
  case (Some scope)
  show ?thesis
  proof (cases "scope = []")
    case True
    with Some show ?thesis by (simp add: starting_scope_ops_def)
  next
    case ne: False
    show ?thesis
    proof (cases "filter_ops_from_regex rx g (make_list_of_op g) (''^'' @ scope)")
      case (Inl e)
      from filter_ops_from_regex_compiles [OF Inl] Inl Some ne show ?thesis
        by (simp add: starting_scope_ops_def)
    next
      case (Inr ops)
      show ?thesis
      proof (cases "ops = []")
        case True
        with Inr Some ne show ?thesis by (simp add: starting_scope_ops_def)
      next
        case False
        with Inr Some ne filter_ops_from_regex_subset [OF Inr] show ?thesis
          by (simp add: starting_scope_ops_def make_list_of_op_def) auto
      qed
    qed
  qed
qed

lemma score_candidates_keys:
  "fst ` set (fst (score_candidates g ng c ps tmp mx)) \<subseteq> fst ` set tmp \<union> set ps"
proof (induction ps arbitrary: tmp mx)
  case Nil
  show ?case by simp
next
  case (Cons p ps)
  define n where "n = int (length (remdups (set_inter (ge_get_forward_walk_ops g [p] ng False) c)))"
  show ?case
  proof (cases "n > 0")
    case True
    then have "score_candidates g ng c (p # ps) tmp mx
        = score_candidates g ng c ps (tmp @ [(p, n)]) (if n > mx then n else mx)"
      by (simp add: n_def Let_def)
    moreover have "fst ` set (fst (score_candidates g ng c ps (tmp @ [(p, n)]) (if n > mx then n else mx)))
        \<subseteq> fst ` set (tmp @ [(p, n)]) \<union> set ps"
      by (rule Cons.IH)
    ultimately show ?thesis by auto
  next
    case False
    then have "score_candidates g ng c (p # ps) tmp mx = score_candidates g ng c ps tmp mx"
      by (simp add: n_def Let_def)
    moreover have "fst ` set (fst (score_candidates g ng c ps tmp mx)) \<subseteq> fst ` set tmp \<union> set ps"
      by (rule Cons.IH)
    ultimately show ?thesis by auto
  qed
qed

lemma auto_seed_ops_subset: "set (auto_seed_ops g grad) \<subseteq> {..<length g}"
proof -
  have cand: "set (seed_candidates g grad) \<subseteq> {..<length g}"
    by (auto simp: seed_candidates_def set_diff_def make_list_of_op_def)
  let ?r = "score_candidates g (set_diff (make_list_of_op g) grad) (seed_candidates g grad)
              (seed_candidates g grad) [] (-1)"
  have "set (auto_seed_ops g grad) \<subseteq> fst ` set (fst ?r)"
    by (auto simp: auto_seed_ops_def Let_def case_prod_unfold)
  also have "\<dots> \<subseteq> set (seed_candidates g grad)"
    using score_candidates_keys [of g _ _ "seed_candidates g grad" "[]"] by simp
  finally show ?thesis using cand by blast
qed

lemma get_seed_ops_result:
  "(\<exists>e. get_seed_ops rx s = Inl e
        \<and> ((\<forall>scope. starting_scope s = Some scope \<and> scope \<noteq> [] \<longrightarrow> compiles rx (''^'' @ scope))
             \<and> (\<forall>nms nm. starting_op_names s = Some nms \<and> nm \<in> set nms \<longrightarrow>
                   compiles rx (''^'' @ nm @ ''$''))
             \<longrightarrow> (\<exists>msg. e = ValueError msg)))
   \<or> (\<exists>seeds. get_seed_ops rx s = Inr seeds \<and> set seeds \<subseteq> {..<length (G s)}
        \<and> (\<forall>scope. starting_scope s = Some scope \<and> scope \<noteq> [] \<longrightarrow>
               filter_ops_from_regex rx (G s) (make_list_of_op (G s)) (''^'' @ scope) \<noteq> Inr [])
        \<and> (\<forall>nms nm. starting_op_names s = Some nms \<and> nm \<in> set nms \<longrightarrow>
               filter_ops_from_regex rx (G s) (make_list_of_op (G s)) (''^'' @ nm @ ''$'')
                 \<noteq> Inr []))"
proof -
  let ?g = "G s"
  from starting_scope_ops_result [of rx ?g "starting_scope s"]
  show ?thesis
  proof
    assume "\<exists>e. starting_scope_ops rx ?g (starting_scope s) = Inl e
        \<and> ((\<forall>scope. starting_scope s = Some scope \<and> scope \<noteq> [] \<longrightarrow> compiles rx (''^'' @ scope))
             \<longrightarrow> (\<exists>msg. e = ValueError msg))"
    then obtain e where e: "starting_scope_ops rx ?g (starting_scope s) = Inl e"
        "(\<forall>scope. starting_scope s = Some scope \<and> scope \<noteq> [] \<longrightarrow> compiles rx (''^'' @ scope))
             \<longrightarrow> (\<exists>msg. e = ValueError msg)"
      by blast
    from e(1) have "get_seed_ops rx s = Inl e" by (simp add: get_seed_ops_def)
    with e(2) show ?thesis by blast
  next
    assume "\<exists>seeds. starting_scope_ops rx ?g (starting_scope s) = Inr seeds
        \<and> set seeds \<subseteq> {..<length ?g}
        \<and> (\<forall>scope. starting_scope s = Some scope \<and> scope \<noteq> [] \<longrightarrow>
               filter_ops_from_regex rx ?g (make_list_of_op ?g) (''^'' @ scope) \<noteq> Inr [])"
    then obtain seeds1 where ok: "starting_scope_ops rx ?g (starting_scope s) = Inr seeds1"
        "set seeds1 \<subseteq> {..<length ?g}"
        "\<forall>scope. starting_scope s = Some scope \<and> scope \<noteq> [] \<longrightarrow>
               filter_ops_from_regex rx ?g (make_list_of_op ?g) (''^'' @ scope) \<noteq> Inr []"
      by blast
    have fin: "set (if seeds = [] then auto_seed_ops ?g (grad_ops s) else seeds) \<subseteq> {..<length ?g}"
      if "set seeds \<subseteq> {..<length ?g}" for seeds
      using that auto_seed_ops_subset [of ?g "grad_ops s"] by simp
    show ?thesis
    proof (cases "starting_op_names s")
      case None
      then have "get_seed_ops rx s = Inr (if seeds1 = [] then auto_seed_ops ?g (grad_ops s) else seeds1)"
        using ok(1) by (simp add: get_seed_ops_def)
      with fin [OF ok(2)] ok(3) None show ?thesis by simp
    next
      case (Some nms)
      from starting_names_loop_result [of rx ?g nms seeds1]
      show ?thesis
      proof
        assume "\<exists>e. starting_names_loop rx ?g nms seeds1 = Inl e
          \<and> ((\<forall>nm\<in>set nms. compiles rx (''^'' @ nm @ ''$'')) \<longrightarrow> (\<exists>msg. e = ValueError msg))"
        then obtain e where e: "starting_names_loop rx ?g nms seeds1 = Inl e"
            "(\<forall>nm\<in>set nms. compiles rx (''^'' @ nm @ ''$'')) \<longrightarrow> (\<exists>msg. e = ValueError msg)"
          by blast
        from e(1) ok(1) Some have "get_seed_ops rx s = Inl e" by (simp add: get_seed_ops_def)
        with e(2) Some show ?thesis by auto
      next
        assume "\<exists>seeds. starting_names_loop rx ?g nms seeds1 = Inr seeds
            \<and> set seeds \<subseteq> set seeds1 \<union> {..<length ?g}
            \<and> (\<forall>nm\<in>set nms.
                  filter_ops_from_regex rx ?g (make_list_of_op ?g) (''^'' @ nm @ ''$'') \<noteq> Inr [])"
        then obtain seeds where sd: "starting_names_loop rx ?g nms seeds1 = Inr seeds"
            "set seeds \<subseteq> set seeds1 \<union> {..<length ?g}"
            "\<forall>nm\<in>set nms.
                  filter_ops_from_regex rx ?g (make_list_of_op ?g) (''^'' @ nm @ ''$'') \<noteq> Inr []"
          by blast
        from sd(2) ok(2) have "set seeds \<subseteq> {..<length ?g}" by blast
        note f = fin [OF this]
        have "get_seed_ops rx s = Inr (if seeds = [] then auto_seed_ops ?g (grad_ops s) else seeds)"
          using ok(1) Some sd(1) by (simp add: get_seed_ops_def)
        with f ok(3) sd(3) Some show ?thesis by simp
      qed
    qed
  qed
qed

lemma build_gradient_ops_loop_n_tensors:
  "build_gradient_ops_loop rx scopes (s\<lparr>n_tensors := n\<rparr>)
     = (fst (build_gradient_ops_loop rx scopes s),
        (snd (build_gradient_ops_loop rx scopes s))\<lparr>n_tensors := n\<rparr>)"
proof (induction scopes arbitrary: s)
  case Nil
  show ?case by simp
next
  case (Cons scope scopes)
  show ?case
  proof (cases "filter_ops_from_regex rx (G s) (make_list_of_op (G s)) (''^'' @ scope)")
    case (Inl e)
    then show ?thesis by simp
  next
    case (Inr ops)
    show ?thesis
    proof (cases "ops = []")
      case True
      with Inr show ?thesis by simp
    next
      case False
      let ?s1 = "s\<lparr>grad_ops := set_union (grad_ops s) ops\<rparr>"
      have comm: "s\<lparr>n_tensors := n, grad_ops := x\<rparr> = s\<lparr>grad_ops := x, n_tensors := n\<rparr>" for x
        by simp
      have "build_gradient_ops_loop rx (scope # scopes) (s\<lparr>n_tensors := n\<rparr>)
          = build_gradient_ops_loop rx scopes (?s1\<lparr>n_tensors := n\<rparr>)"
        using Inr False by (simp add: comm)
      also have "\<dots> = (fst (build_gradient_ops_loop rx scopes ?s1),
          (snd (build_gradient_ops_loop rx scopes ?s1))\<lparr>n_tensors := n\<rparr>)"
        by (rule Cons.IH)
      finally show ?thesis using Inr False by simp
    qed
  qed
qed

lemma get_seed_ops_n_tensors: "get_seed_ops rx (s\<lparr>n_tensors := n\<rparr>) = get_seed_ops rx s"
  by (simp add: get_seed_ops_def split: sum.splits option.splits)

lemma reachable_loop_spec:
  "same_walks s (snd (reachable_loop s seed_ops acc))
   \<and> set (fst (reachable_loop s seed_ops acc)) = set acc \<union> (\<Union>p\<in>set seed_ops. set (memo_walk s p))"
proof (induction seed_ops arbitrary: s acc)
  case Nil
  show ?case by simp
next
  case (Cons p ps)
  let ?s1 = "snd (get_forward_walk_ops s p True)"
  have sw: "same_walks s ?s1" by (rule get_forward_walk_ops_same_walks)
  then have mw: "memo_walk ?s1 q = memo_walk s q" for q
    unfolding same_walks_def by simp
  have eq: "reachable_loop s (p # ps) acc = reachable_loop ?s1 ps (set_union acc (memo_walk s p))"
    by (simp add: case_prod_unfold get_forward_walk_ops_fst)
  from Cons.IH [of ?s1 "set_union acc (memo_walk s p)"]
  have "same_walks ?s1 (snd (reachable_loop ?s1 ps (set_union acc (memo_walk s p))))"
    and "set (fst (reachable_loop ?s1 ps (set_union acc (memo_walk s p))))
          = set (set_union acc (memo_walk s p)) \<union> (\<Union>q\<in>set ps. set (memo_walk ?s1 q))"
    by blast+
  then show ?case
    unfolding eq using sw by (auto simp: mw set_union_def intro: same_walks_trans)
qed

lemma memo_walk_fresh:
  "ops_dict s = [] \<Longrightarrow> memo_walk s p = ge_get_forward_walk_ops (G s) [p] [] True"
  by (simp add: memo_walk_def)

lemma reachable_loop_subset:
  assumes "ops_dict s = []" and "set seed_ops \<subseteq> {..<length (G s)}"
  shows "set (fst (reachable_loop s seed_ops [])) \<subseteq> {..<length (G s)}"
proof -
  have "set (memo_walk s p) \<subseteq> {..<length (G s)}" if "p \<in> set seed_ops" for p
    using that assms ge_get_forward_walk_ops_subset [of "G s" "[p]" "[]" True]
    by (auto simp: memo_walk_fresh)
  then show ?thesis using reachable_loop_spec [of s seed_ops "[]"] by auto
qed

lemma filter_scopes_loop_result:
  "(\<exists>e. filter_scopes_loop rx g within_ops scopes ret = Inl e
        \<and> ((\<forall>scope\<in>set scopes. compiles rx (name_scope_regex scope))
             \<longrightarrow> (\<exists>msg. e = ValueError msg)))
   \<or> (\<exists>r. filter_scopes_loop rx g within_ops scopes ret = Inr r
        \<and> (\<forall>scope\<in>set scopes. get_name_scope_ops rx g within_ops scope \<noteq> Inr []))"
proof (induction scopes arbitrary: ret)
  case Nil
  show ?case by simp
next
  case (Cons scope scopes)
  show ?case
  proof (cases "get_name_scope_ops rx g within_ops scope")
    case (Inl e)
    then have "filter_ops_from_regex rx g within_ops (name_scope_regex scope) = Inl e"
      by (simp add: get_name_scope_ops_def)
    from filter_ops_from_regex_compiles [OF this] Inl show ?thesis by simp
  next
    case (Inr ops)
    show ?thesis
    proof (cases "ops = []")
      case True
      with Inr show ?thesis by simp
    next
      case False
      from Cons.IH [of "set_union ret ops"] Inr False show ?thesis by auto
    qed
  qed
qed

lemma filter_scopes_and_types_result:
  "(\<exists>e. filter_scopes_and_types rx g within_ops scopes types = Inl e
        \<and> ((\<forall>scope\<in>set scopes. compiles rx (name_scope_regex scope))
             \<longrightarrow> (\<exists>msg. e = ValueError msg)))
   \<or> (\<exists>r. filter_scopes_and_types rx g within_ops scopes types = Inr r
        \<and> (\<forall>scope\<in>set scopes. get_name_scope_ops rx g within_ops scope \<noteq> Inr [])
        \<and> (\<forall>ty\<in>set types. ty \<notin> set ATOMIC_TYPES \<longrightarrow> (\<exists>p\<in>set within_ops. op_type (g ! p) = ty)))"
proof -
  from filter_scopes_loop_result [of rx g within_ops scopes "[]"]
  show ?thesis
  proof
    assume "\<exists>e. filter_scopes_loop rx g within_ops scopes [] = Inl e
        \<and> ((\<forall>scope\<in>set scopes. compiles rx (name_scope_regex scope))
             \<longrightarrow> (\<exists>msg. e = ValueError msg))"
    then show ?thesis by (auto simp: filter_scopes_and_types_def)
  next
    assume "\<exists>r. filter_scopes_loop rx g within_ops scopes [] = Inr r
        \<and> (\<forall>scope\<in>set scopes. get_name_scope_ops rx g within_ops scope \<noteq> Inr [])"
    then obtain r where r: "filter_scopes_loop rx g within_ops scopes [] = Inr r"
        "\<forall>scope\<in>set scopes. get_name_scope_ops rx g within_ops scope \<noteq> Inr []"
      by blast
    define type_ops where "type_ops = filter (\<lambda>p. op_type (g ! p) \<in> set types) within_ops"
    define missing where "missing = set_diff (set_diff types
        (remdups (map (\<lambda>p. op_type (g ! p)) type_ops))) ATOMIC_TYPES"
    have eq: "filter_scopes_and_types rx g within_ops scopes types
        = (if missing \<noteq> [] then Inl (ValueError (''No operations were found with types:  ''
                          @ concat missing @ ''.''))
           else Inr (set_union r type_ops))"
      using r(1) by (simp add: filter_scopes_and_types_def Let_def missing_def type_ops_def)
    show ?thesis
    proof (cases "missing = []")
      case False
      then show ?thesis by (simp add: eq)
    next
      case True
      have "\<exists>p\<in>set within_ops. op_type (g ! p) = ty" if "ty \<in> set types" "ty \<notin> set ATOMIC_TYPES" for ty
      proof (rule ccontr)
        assume "\<not> (\<exists>p\<in>set within_ops. op_type (g ! p) = ty)"
        then have "ty \<notin> set (remdups (map (\<lambda>p. op_type (g ! p)) type_ops))"
          by (auto simp: type_ops_def)
        with that have "ty \<in> set missing" by (simp add: missing_def set_diff_def)
        with True show False by simp
      qed
      with True r(2) show ?thesis by (simp add: eq)
    qed
  qed
qed

lemma get_name_scope_ops_mono:
  assumes "set within_ops \<subseteq> {..<length g}"
    and "get_name_scope_ops rx g (make_list_of_op g) scope = Inr []"
  shows "get_name_scope_ops rx g within_ops scope = Inr []"
proof -
  from assms(1) have "set within_ops \<subseteq> set (make_list_of_op g)"
    by (auto simp: make_list_of_op_def)
  with assms(2) show ?thesis
    unfolding get_name_scope_ops_def by (rule filter_ops_from_regex_mono)
qed

lemma unmatched_filter_cases:
  assumes "unmatched_filter rx s g" and "set within_ops \<subseteq> {..<length g}"
  shows "(\<exists>scope\<in>set (excl_scopes s). get_name_scope_ops rx g within_ops scope = Inr [])
       \<or> (\<exists>ty\<in>set (excl_types s). ty \<notin> set ATOMIC_TYPES \<and> \<not> (\<exists>p\<in>set within_ops. op_type (g ! p) = ty))
       \<or> (\<exists>scope\<in>set (incl_scopes s). get_name_scope_ops rx g within_ops scope = Inr [])
       \<or> (\<exists>ty\<in>set (incl_types s). ty \<notin> set ATOMIC_TYPES \<and> \<not> (\<exists>p\<in>set within_ops. op_type (g ! p) = ty))"
proof -
  have none: "\<not> (\<exists>p\<in>set within_ops. op_type (g ! p) = ty)"
    if "filter (\<lambda>p. op_type (g ! p) = ty) (make_list_of_op g) = []" for ty
  proof -
    from that have "\<forall>p<length g. op_type (g ! p) \<noteq> ty"
      by (simp add: make_list_of_op_def filter_empty_conv)
    with assms(2) show ?thesis by auto
  qed
  from assms(1) consider
      (sc) scope where "scope \<in> set (excl_scopes s @ incl_scopes s)"
          "get_name_scope_ops rx g (make_list_of_op g) scope = Inr []"
    | (ty) t where "t \<in> set (excl_types s @ incl_types s)" "t \<notin> set ATOMIC_TYPES"
          "filter (\<lambda>p. op_type (g ! p) = t) (make_list_of_op g) = []"
    unfolding unmatched_filter_def list_ex_iff by blast
  then show ?thesis
  proof cases
    case sc
    from get_name_scope_ops_mono [OF assms(2) sc(2)] sc(1) show ?thesis by auto
  next
    case ty
    from ty(1,2) none [OF ty(3)] show ?thesis by auto
  qed
qed

lemma run_rewrite_unmatched:
  assumes "unmatched_filter rx s (G s)" and "set reachable_ops \<subseteq> {..<length (G s)}"
    and v: "\<forall>scope\<in>set (excl_scopes s @ incl_scopes s). compiles rx (name_scope_regex scope)"
  shows "\<exists>msg s'. run_rewrite rx TOPOS fuel s seed_ops reachable_ops = (Inl (ValueError msg), s')
           \<and> graph s' = graph s"
proof -
  let ?g = "G s"
  note u = unmatched_filter_cases [OF assms(1,2)]
  from v have ve: "\<forall>scope\<in>set (excl_scopes s). compiles rx (name_scope_regex scope)"
    and vi: "\<forall>scope\<in>set (incl_scopes s). compiles rx (name_scope_regex scope)"
    by simp_all
  from filter_scopes_and_types_result [of rx ?g reachable_ops "excl_scopes s" "excl_types s"]
  show ?thesis
  proof
    assume "\<exists>e. filter_scopes_and_types rx ?g reachable_ops (excl_scopes s) (excl_types s) = Inl e
        \<and> ((\<forall>scope\<in>set (excl_scopes s). compiles rx (name_scope_regex scope))
             \<longrightarrow> (\<exists>msg. e = ValueError msg))"
    with ve obtain msg where
      "filter_scopes_and_types rx ?g reachable_ops (excl_scopes s) (excl_types s)
         = Inl (ValueError msg)"
      by blast
    then show ?thesis by (simp add: run_rewrite_def)
  next
    assume "\<exists>r. filter_scopes_and_types rx ?g reachable_ops (excl_scopes s) (excl_types s) = Inr r
        \<and> (\<forall>scope\<in>set (excl_scopes s). get_name_scope_ops rx ?g reachable_ops scope \<noteq> Inr [])
        \<and> (\<forall>ty\<in>set (excl_types s). ty \<notin> set ATOMIC_TYPES \<longrightarrow>
               (\<exists>p\<in>set reachable_ops. op_type (?g ! p) = ty))"
    then obtain excl where ex:
        "filter_scopes_and_types rx ?g reachable_ops (excl_scopes s) (excl_types s) = Inr excl"
        "\<forall>scope\<in>set (excl_scopes s). get_name_scope_ops rx ?g reachable_ops scope \<noteq> Inr []"
        "\<forall>ty\<in>set (excl_types s). ty \<notin> set ATOMIC_TYPES \<longrightarrow>
               (\<exists>p\<in>set reachable_ops. op_type (?g ! p) = ty)"
      by blast
    with u have bad: "(\<exists>scope\<in>set (incl_scopes s). get_name_scope_ops rx ?g reachable_ops scope = Inr [])
       \<or> (\<exists>ty\<in>set (incl_types s). ty \<notin> set ATOMIC_TYPES
             \<and> \<not> (\<exists>p\<in>set reachable_ops. op_type (?g ! p) = ty))"
      by blast
    from filter_scopes_and_types_result [of rx ?g reachable_ops "incl_scopes s" "incl_types s"]
      bad vi
    obtain msg where
      "filter_scopes_and_types rx ?g reachable_ops (incl_scopes s) (incl_types s)
         = Inl (ValueError msg)"
      by blast
    with ex(1) show ?thesis by (simp add: run_rewrite_def)
  qed
qed

lemma unmatched_start_cases:
  assumes "\<forall>scope\<in>set (optimizer_scopes s).
             filter_ops_from_regex rx g (make_list_of_op g) (''^'' @ scope) \<noteq> Inr []"
    and "\<forall>scope. starting_scope s = Some scope \<and> scope \<noteq> [] \<longrightarrow>
               filter_ops_from_regex rx g (make_list_of_op g) (''^'' @ scope) \<noteq> Inr []"
    and "\<forall>nms nm. starting_op_names s = Some nms \<and> nm \<in> set nms \<longrightarrow>
               filter_ops_from_regex rx g (make_list_of_op g) (''^'' @ nm @ ''$'') \<noteq> Inr []"
  shows "\<not> unmatched_start rx s g"
  using assms unfolding unmatched_start_def list_ex_iff
  by (auto split: option.splits)

lemma valid_patterns_cases:
  assumes "valid_patterns rx s"
  shows "\<forall>scope\<in>set (optimizer_scopes s). compiles rx (''^'' @ scope)"
    and "\<forall>scope. starting_scope s = Some scope \<and> scope \<noteq> [] \<longrightarrow> compiles rx (''^'' @ scope)"
    and "\<forall>nms nm. starting_op_names s = Some nms \<and> nm \<in> set nms \<longrightarrow>
           compiles rx (''^'' @ nm @ ''$'')"
    and "\<forall>scope\<in>set (excl_scopes s @ incl_scopes s). compiles rx (name_scope_regex scope)"
  using assms unfolding valid_patterns_def list_all_iff
  by (auto split: option.splits)

text \<open>The states between the steps of \<open>run_on_graph\<close>.\<close>

lemma run_on_graph_steps:
  assumes g: "graph s = Some g" and fresh: "ops_dict s = []"
  obtains
    (grad_error) e s1 where "run_on_graph rx TOPOS fuel s = (Inl e, s1)"
      "graph s1 = Some g" "build_gradient_ops rx s = (Inl e, s1)"
      "valid_patterns rx s \<longrightarrow> (\<exists>msg. e = ValueError msg)"
  | (seed_error) e s1 where "run_on_graph rx TOPOS fuel s = (Inl e, s1)"
      "graph s1 = Some g" "build_gradient_ops rx s = (Inr (), s1)" "get_seed_ops rx s1 = Inl e"
      "valid_patterns rx s \<longrightarrow> (\<exists>msg. e = ValueError msg)"
  | (seeds) s1 seed_ops reachable_ops s2 gr d where
      "build_gradient_ops rx s = (Inr (), s1)" "s1 = s\<lparr>grad_ops := gr\<rparr>"
      "get_seed_ops rx s1 = Inr seed_ops" "set seed_ops \<subseteq> {..<length g}"
      "reachable_loop s1 seed_ops [] = (reachable_ops, s2)" "s2 = s1\<lparr>ops_dict := d\<rparr>"
      "set reachable_ops = (\<Union>p\<in>set seed_ops. set (ge_get_forward_walk_ops g [p] [] True))"
      "set reachable_ops \<subseteq> {..<length g}"
      "\<not> unmatched_start rx s g"
      "run_on_graph rx TOPOS fuel s =
         (if already_updated g reachable_ops then (Inr None, s2)
          else run_rewrite rx TOPOS fuel s2 seed_ops reachable_ops)"
proof -
  have Gs: "G s = g" using g by (simp add: G_def)
  define r1 where "r1 = build_gradient_ops_loop rx (optimizer_scopes s) s"
  define s1 where "s1 = snd r1"
  have s1: "s1 = s\<lparr>grad_ops := grad_ops s1\<rparr>"
    unfolding s1_def r1_def by (rule build_gradient_ops_loop_spec)
  have gs1: "graph s1 = Some g" by (subst s1) (simp add: g)
  have Gs1: "G s1 = g" using gs1 by (simp add: G_def)
  have bg: "build_gradient_ops rx s = (fst r1, s1)"
    by (simp add: build_gradient_ops_def r1_def s1_def)
  from build_gradient_ops_loop_result [of rx "optimizer_scopes s" s]
  show ?thesis
  proof
    assume "\<exists>e. fst (build_gradient_ops_loop rx (optimizer_scopes s) s) = Inl e
        \<and> ((\<forall>scope\<in>set (optimizer_scopes s). compiles rx (''^'' @ scope))
             \<longrightarrow> (\<exists>msg. e = ValueError msg))"
    then obtain e where e: "fst r1 = Inl e"
        "(\<forall>scope\<in>set (optimizer_scopes s). compiles rx (''^'' @ scope))
             \<longrightarrow> (\<exists>msg. e = ValueError msg)"
      unfolding r1_def by blast
    from e(2) valid_patterns_cases(1) [of rx s]
    have v: "valid_patterns rx s \<longrightarrow> (\<exists>msg. e = ValueError msg)" by blast
    from e(1) bg have "run_on_graph rx TOPOS fuel s = (Inl e, s1)"
      by (simp add: run_on_graph_def)
    then show ?thesis using gs1 bg [unfolded e(1)] v by (rule grad_error)
  next
    assume "fst (build_gradient_ops_loop rx (optimizer_scopes s) s) = Inr () \<and>
        (\<forall>scope\<in>set (optimizer_scopes s).
            filter_ops_from_regex rx (G s) (make_list_of_op (G s)) (''^'' @ scope) \<noteq> Inr [])"
    then have ok1: "fst r1 = Inr ()"
      and opt: "\<forall>scope\<in>set (optimizer_scopes s).
                  filter_ops_from_regex rx g (make_list_of_op g) (''^'' @ scope) \<noteq> Inr []"
      unfolding r1_def Gs by blast+
    have st: "starting_scope s1 = starting_scope s" "starting_op_names s1 = starting_op_names s"
      "ops_dict s1 = []"
      by (subst s1, simp add: fresh)+
    from get_seed_ops_result [of rx s1]
    show ?thesis
    proof
      assume "\<exists>e. get_seed_ops rx s1 = Inl e
        \<and> ((\<forall>scope. starting_scope s1 = Some scope \<and> scope \<noteq> [] \<longrightarrow> compiles rx (''^'' @ scope))
             \<and> (\<forall>nms nm. starting_op_names s1 = Some nms \<and> nm \<in> set nms \<longrightarrow>
                   compiles rx (''^'' @ nm @ ''$''))
             \<longrightarrow> (\<exists>msg. e = ValueError msg))"
      then obtain e where e: "get_seed_ops rx s1 = Inl e"
          "(\<forall>scope. starting_scope s = Some scope \<and> scope \<noteq> [] \<longrightarrow> compiles rx (''^'' @ scope))
             \<and> (\<forall>nms nm. starting_op_names s = Some nms \<and> nm \<in> set nms \<longrightarrow>
                   compiles rx (''^'' @ nm @ ''$''))
             \<longrightarrow> (\<exists>msg. e = ValueError msg)"
        unfolding st by blast
      from e(2) valid_patterns_cases(2,3) [of rx s]
      have v: "valid_patterns rx s \<longrightarrow> (\<exists>msg. e = ValueError msg)" by blast
      from e(1) bg ok1 have "run_on_graph rx TOPOS fuel s = (Inl e, s1)"
        by (simp add: run_on_graph_def)
      then show ?thesis using gs1 bg [unfolded ok1] e(1) v by (rule seed_error)
    next
      assume "\<exists>seeds. get_seed_ops rx s1 = Inr seeds \<and> set seeds \<subseteq> {..<length (G s1)} \<and>
          (\<forall>scope. starting_scope s1 = Some scope \<and> scope \<noteq> [] \<longrightarrow>
               filter_ops_from_regex rx (G s1) (make_list_of_op (G s1)) (''^'' @ scope) \<noteq> Inr []) \<and>
          (\<forall>nms nm. starting_op_names s1 = Some nms \<and> nm \<in> set nms \<longrightarrow>
               filter_ops_from_regex rx (G s1) (make_list_of_op (G s1)) (''^'' @ nm @ ''$'')
                 \<noteq> Inr [])"
      then obtain seed_ops where sd: "get_seed_ops rx s1 = Inr seed_ops"
          "set seed_ops \<subseteq> {..<length g}"
          "\<forall>scope. starting_scope s = Some scope \<and> scope \<noteq> [] \<longrightarrow>
               filter_ops_from_regex rx g (make_list_of_op g) (''^'' @ scope) \<noteq> Inr []"
          "\<forall>nms nm. starting_op_names s = Some nms \<and> nm \<in> set nms \<longrightarrow>
               filter_ops_from_regex rx g (make_list_of_op g) (''^'' @ nm @ ''$'') \<noteq> Inr []"
        unfolding Gs1 st by blast
      have um: "\<not> unmatched_start rx s g"
        using opt sd(3,4) by (rule unmatched_start_cases)
      define R where "R = fst (reachable_loop s1 seed_ops [])"
      define s2 where "s2 = snd (reachable_loop s1 seed_ops [])"
      have rl: "reachable_loop s1 seed_ops [] = (R, s2)" by (simp add: R_def s2_def)
      have sw: "same_walks s1 s2"
        unfolding s2_def using reachable_loop_spec [of s1 seed_ops "[]"] by blast
      then obtain d where d: "s2 = s1\<lparr>ops_dict := d\<rparr>" unfolding same_walks_def by blast
      have Gs2: "G s2 = g" using same_walks_G [OF sw] Gs1 by simp
      have Rset: "set R = (\<Union>p\<in>set seed_ops. set (ge_get_forward_walk_ops g [p] [] True))"
        unfolding R_def using reachable_loop_spec [of s1 seed_ops "[]"]
        by (simp add: memo_walk_fresh [OF st(3)] Gs1)
      have Rsub: "set R \<subseteq> {..<length g}"
        unfolding R_def using reachable_loop_subset [of s1 seed_ops] st(3) sd(2) Gs1 by simp
      have "run_on_graph rx TOPOS fuel s =
         (if already_updated g R then (Inr None, s2) else run_rewrite rx TOPOS fuel s2 seed_ops R)"
        using bg ok1 sd(1) rl by (simp add: run_on_graph_def Gs2)
      with bg ok1 s1 sd(1,2) rl d Rset Rsub um show ?thesis
        by (intro seeds [of s1 "grad_ops s1" seed_ops R s2 d]) simp_all
    qed
  qed
qed

lemma run_head:
  "n_tensors s \<noteq> 0 \<Longrightarrow> run rx TOPOS fuel s (Some g) = run_on_graph rx TOPOS fuel (run_state s g)"
  by (simp add: run_def run_state_def Let_def)

lemma run_state_fields:
  "graph (run_state s g) = Some g" "ops_dict (run_state s g) = ops_dict s"
  "unmatched_start rx (run_state s g) g' = unmatched_start rx s g'"
  "unmatched_filter rx (run_state s g) g' = unmatched_filter rx s g'"
  "optimizer_scopes (run_state s g) = optimizer_scopes s"
  "valid_patterns rx (run_state s g) = valid_patterns rx s"
  by (simp_all add: run_state_def unmatched_start_def unmatched_filter_def valid_patterns_def)

section \<open>The entry point\<close>

subsection \<open>Relocation switched off\<close>

text \<open>
  C4.  With \<open>n_tensors\<close> at 0, \<open>run\<close> returns at once: the object keeps the graph it was
  given exactly as it was given, so no operation is created and none is changed.
\<close>

theorem run_disabled:
  assumes "n_tensors s = 0"
  shows "run rx TOPOS fuel s (Some g) = (Inr None, s\<lparr>graph := Some g\<rparr>)
       \<and> G (snd (run rx TOPOS fuel s (Some g))) = g
       \<and> run rx TOPOS fuel s None = (Inr None, s)"
  using assms by (simp add: run_def)

theorem run_disabled_witness:
  "run example_re example_TOPOS 100 (default_lms\<lparr>n_tensors := 0\<rparr>) (Some example_graph)
     = (Inr None, default_lms\<lparr>n_tensors := 0, graph := Some example_graph\<rparr>)
   \<and> G (snd (run example_re example_TOPOS 100 (default_lms\<lparr>n_tensors := 0\<rparr>) (Some example_graph)))
       = example_graph"
  using run_disabled [of "default_lms\<lparr>n_tensors := 0\<rparr>" example_re example_TOPOS 100 example_graph]
  by simp

subsection \<open>Names that match nothing\<close>

text \<open>
  C3, as amended.  Let relocation be enabled (\<open>n_tensors\<close> is not 0) on a newly built
  object (its memo table is empty), and let the scopes and names of the configuration be
  regular expressions, as which the program matches them.  If an optimizer scope, the
  starting scope, a starting name, an exclude or include scope, or an exclude or include
  type outside the atomic ones matches no operation of the graph, then the graph is left
  as it was given, and the outcome of \<open>run\<close> is decided by its test for a rewritten graph:
  where an operation with \<^verbatim>\<open>lms/swap\<close> in its name is among the operations reached from the
  seeds, \<open>run\<close> returns \<open>None\<close> without an error, and everywhere else it raises a
  \<^verbatim>\<open>ValueError\<close>.  The test finds nothing unless the backward operations and the seeds were
  found: an optimizer scope, starting scope or starting name that matches nothing always
  raises.
\<close>

theorem run_configuration_error:
  assumes "n_tensors s \<noteq> 0" and "ops_dict s = []" and "valid_patterns rx s"
    and "unmatched_start rx s g \<or> unmatched_filter rx s g"
  shows "(if detected_rewritten rx s g
          then \<exists>s'. run rx TOPOS fuel s (Some g) = (Inr None, s') \<and> graph s' = Some g
          else \<exists>msg s'. run rx TOPOS fuel s (Some g) = (Inl (ValueError msg), s')
                 \<and> graph s' = Some g)
         \<and> (unmatched_start rx s g \<longrightarrow> \<not> detected_rewritten rx s g)"
proof -
  define s0 where "s0 = run_state s g"
  have r: "run rx TOPOS fuel s (Some g) = run_on_graph rx TOPOS fuel s0"
    unfolding s0_def using assms(1) by (rule run_head)
  have g0: "graph s0 = Some g" and f0: "ops_dict s0 = []" and v0: "valid_patterns rx s0"
    unfolding s0_def by (simp_all add: run_state_fields assms(2,3))
  from g0 f0 show ?thesis
  proof (cases rule: run_on_graph_steps [where rx = rx and TOPOS = TOPOS and fuel = fuel])
    case (grad_error e s1)
    from grad_error(3) have nd: "\<not> detected_rewritten rx s g"
      by (simp add: detected_rewritten_def s0_def [symmetric])
    from grad_error(4) v0 obtain msg where "e = ValueError msg" by blast
    with grad_error(1,2) nd show ?thesis unfolding r by simp
  next
    case (seed_error e s1)
    from seed_error(3,4) have nd: "\<not> detected_rewritten rx s g"
      by (simp add: detected_rewritten_def s0_def [symmetric])
    from seed_error(5) v0 obtain msg where "e = ValueError msg" by blast
    with seed_error(1,2) nd show ?thesis unfolding r by simp
  next
    case (seeds s1 seed_ops reachable_ops s2 gr d)
    have um: "\<not> unmatched_start rx s g"
      using seeds(9) unfolding s0_def by (simp add: run_state_fields)
    have s2: "s2 = s0\<lparr>grad_ops := gr, ops_dict := d\<rparr>"
      using seeds(2,6) by simp
    have g2: "graph s2 = Some g" unfolding s2 by (simp add: g0)
    have G2: "G s2 = g" using g2 by (simp add: G_def)
    have det: "detected_rewritten rx s g = already_updated g reachable_ops"
      using seeds(1,3,5) by (simp add: detected_rewritten_def s0_def [symmetric])
    show ?thesis
    proof (cases "already_updated g reachable_ops")
      case True
      then have "run rx TOPOS fuel s (Some g) = (Inr None, s2)"
        unfolding r seeds(10) by simp
      with True g2 um show ?thesis by (simp add: det)
    next
      case False
      from um assms(4) have "unmatched_filter rx s g" by blast
      then have uf: "unmatched_filter rx s2 (G s2)"
        unfolding s2 G2 s0_def by (simp add: unmatched_filter_def run_state_def)
      have "\<forall>scope\<in>set (excl_scopes s @ incl_scopes s). compiles rx (name_scope_regex scope)"
        using assms(3) by (rule valid_patterns_cases)
      then have v2: "\<forall>scope\<in>set (excl_scopes s2 @ incl_scopes s2). compiles rx (name_scope_regex scope)"
        unfolding s2 s0_def by (simp add: run_state_def)
      have sub: "set reachable_ops \<subseteq> {..<length (G s2)}" using seeds(8) by (simp add: G2)
      from run_rewrite_unmatched [OF uf sub v2, of TOPOS fuel seed_ops]
      obtain msg s' where "run_rewrite rx TOPOS fuel s2 seed_ops reachable_ops = (Inl (ValueError msg), s')"
          "graph s' = graph s2"
        by blast
      with False have "run rx TOPOS fuel s (Some g) = (Inl (ValueError msg), s')" "graph s' = Some g"
        unfolding r seeds(10) by (simp_all add: g2)
      with False um show ?thesis by (simp add: det)
    qed
  qed
qed

text \<open>
  A filter scope that matches nothing, on the example graph: the test for a rewritten
  graph finds nothing, the error is raised and the graph is untouched.
\<close>

theorem run_configuration_error_witness:
  "\<not> detected_rewritten example_re (default_lms\<lparr>excl_scopes := [''nowhere'']\<rparr>) example_graph
   \<and> (\<exists>msg s'. run example_re example_TOPOS 100 (default_lms\<lparr>excl_scopes := [''nowhere'']\<rparr>)
                 (Some example_graph) = (Inl (ValueError msg), s')
              \<and> graph s' = Some example_graph)"
proof -
  let ?s = "default_lms\<lparr>excl_scopes := [''nowhere'']\<rparr>"
  have a: "n_tensors ?s \<noteq> 0" "ops_dict ?s = []" by (simp_all add: default_lms_def)
  have v: "valid_patterns example_re ?s" by code_simp
  have b: "unmatched_filter example_re ?s example_graph" by code_simp
  have c: "\<not> detected_rewritten example_re ?s example_graph" by code_simp
  from run_configuration_error [OF a(1) a(2) v disjI2 [OF b], of example_TOPOS 100] c
  show ?thesis by simp
qed

text \<open>
  The claim as it was stated fails where relocation is switched off, and on a graph that
  is found rewritten: an optimizer scope, or an exclude scope, that matches nothing
  raises no error there.  And a scope that is no regular expression, such as an opening
  parenthesis, raises \<^verbatim>\<open>re.error\<close>, which is no \<^verbatim>\<open>ValueError\<close>.
\<close>

theorem run_unmatched_without_error:
  "unmatched_start example_re (default_lms\<lparr>optimizer_scopes := [''adam''], n_tensors := 0\<rparr>)
     example_graph
   \<and> fst (run example_re example_TOPOS 100
            (default_lms\<lparr>optimizer_scopes := [''adam''], n_tensors := 0\<rparr>)
            (Some example_graph)) = Inr None
   \<and> unmatched_filter example_re
         (default_lms\<lparr>starting_op_names := Some [''fw/conv''], excl_scopes := [''nowhere'']\<rparr>)
         example_rewritten
   \<and> fst (run example_re example_TOPOS 100
            (default_lms\<lparr>starting_op_names := Some [''fw/conv''], excl_scopes := [''nowhere'']\<rparr>)
            (Some example_rewritten)) = Inr None
   \<and> fst (run example_re example_TOPOS 100 (default_lms\<lparr>optimizer_scopes := [''('']\<rparr>)
            (Some example_graph)) = Inl ReError"
  by code_simp

subsection \<open>A graph that is already rewritten\<close>

text \<open>
  C2, as amended.  On a newly built object, if the backward operations and the seeds are
  found without an error and the forward walk of a seed holds an operation with
  \<^verbatim>\<open>lms/swap\<close> in its name, \<open>run\<close> returns \<open>None\<close> without an error and the graph is the one
  it was given.  A second run leaves a rewritten graph unchanged in this case, and not
  in general.
\<close>

theorem run_already_rewritten:
  assumes "ops_dict s = []"
    and "build_gradient_ops rx (s\<lparr>graph := Some g\<rparr>) = (Inr (), s1)"
    and "get_seed_ops rx s1 = Inr seed_ops"
    and "seed_op \<in> set seed_ops"
    and "p \<in> set (ge_get_forward_walk_ops g [seed_op] [] True)"
    and "str_contains ''lms/swap'' (op_name (g ! p))"
  shows "\<exists>s'. run rx TOPOS fuel s (Some g) = (Inr None, s') \<and> graph s' = Some g"
proof (cases "n_tensors s = 0")
  case True
  then show ?thesis by (simp add: run_def)
next
  case False
  define n where "n = (if n_tensors s < 0 then 0 else n_tensors s)"
  define s0 where "s0 = run_state s g"
  have s0: "s0 = (s\<lparr>graph := Some g\<rparr>)\<lparr>n_tensors := n\<rparr>"
    unfolding s0_def run_state_def n_def by simp
  have r: "run rx TOPOS fuel s (Some g) = run_on_graph rx TOPOS fuel s0"
    unfolding s0_def using False by (rule run_head)
  have bg: "build_gradient_ops rx s0 = (Inr (), s1\<lparr>n_tensors := n\<rparr>)"
    using assms(2) unfolding s0 build_gradient_ops_def
    by (simp add: build_gradient_ops_loop_n_tensors)
  have sd: "get_seed_ops rx (s1\<lparr>n_tensors := n\<rparr>) = Inr seed_ops"
    using assms(3) by (simp add: get_seed_ops_n_tensors)
  have "s1 = snd (build_gradient_ops_loop rx (optimizer_scopes s) (s\<lparr>graph := Some g\<rparr>))"
    using assms(2) by (simp add: build_gradient_ops_def)
  then have s1: "s1 = (s\<lparr>graph := Some g\<rparr>)\<lparr>grad_ops := grad_ops s1\<rparr>"
    using build_gradient_ops_loop_spec [of rx "optimizer_scopes s" "s\<lparr>graph := Some g\<rparr>"]
    by simp
  define s2 where "s2 = s1\<lparr>n_tensors := n\<rparr>"
  have f2: "ops_dict s2 = []" and G2: "G s2 = g" and g2: "graph s2 = Some g"
    unfolding s2_def by (subst s1, simp add: assms(1))+
  define R where "R = fst (reachable_loop s2 seed_ops [])"
  define s3 where "s3 = snd (reachable_loop s2 seed_ops [])"
  have rl: "reachable_loop s2 seed_ops [] = (R, s3)" by (simp add: R_def s3_def)
  have sw: "same_walks s2 s3"
    unfolding s3_def using reachable_loop_spec [of s2 seed_ops "[]"] by blast
  have G3: "G s3 = g" using same_walks_G [OF sw] G2 by simp
  have g3: "graph s3 = Some g" using same_walks_graph [OF sw] g2 by simp
  have "set R = (\<Union>q\<in>set seed_ops. set (ge_get_forward_walk_ops g [q] [] True))"
    unfolding R_def using reachable_loop_spec [of s2 seed_ops "[]"]
    by (simp add: memo_walk_fresh [OF f2] G2)
  with assms(4,5) have "p \<in> set R" by blast
  with assms(6) have "already_updated g R"
    unfolding already_updated_def list_ex_iff by blast
  then have "run rx TOPOS fuel s (Some g) = (Inr None, s3)"
    unfolding r using bg sd rl by (simp add: run_on_graph_def s2_def [symmetric] G3)
  with g3 show ?thesis by blast
qed

text \<open>
  The rewritten example graph, with \<^verbatim>\<open>fw/conv\<close> named as the starting operation: its
  forward walk reaches \<^verbatim>\<open>lms/swapout\<close>.
\<close>

theorem run_already_rewritten_witness:
  "\<exists>s'. run example_re example_TOPOS 100 (default_lms\<lparr>starting_op_names := Some [''fw/conv'']\<rparr>)
           (Some example_rewritten) = (Inr None, s')
        \<and> graph s' = Some example_rewritten"
proof -
  let ?s = "default_lms\<lparr>starting_op_names := Some [''fw/conv'']\<rparr>"
  let ?s1 = "?s\<lparr>graph := Some example_rewritten, grad_ops := [3, 4, 5, 6]\<rparr>"
  have a: "ops_dict ?s = []" by (simp add: default_lms_def)
  have b: "build_gradient_ops example_re (?s\<lparr>graph := Some example_rewritten\<rparr>) = (Inr (), ?s1)"
    by code_simp
  have c: "get_seed_ops example_re ?s1 = Inr [0]" by code_simp
  have d: "7 \<in> set (ge_get_forward_walk_ops example_rewritten [0] [] True)" by code_simp
  have e: "str_contains ''lms/swap'' (op_name (example_rewritten ! 7))" by code_simp
  from run_already_rewritten [OF a b c _ d e, where TOPOS = example_TOPOS and fuel = 100]
  show ?thesis by simp
qed

text \<open>
  The claim as it was stated fails for the two towers.  The seeds are looked for again on
  the rewritten graph; the first run rewrites the first tower, after which the seed is
  the convolution of the second tower, whose forward walk reaches no swap operation.
  The second run, of a new object, adds four operations.
\<close>

theorem second_run_rewrites_again:
  "apsnd G (run example_re index_TOPOS 100 default_lms (Some two_towers))
     = (Inr (Some [12, 14, 13, 16, 15, 17]), two_towers_rewritten)
   \<and> apsnd (\<lambda>s. length (G s)) (run example_re index_TOPOS 100 default_lms (Some two_towers_rewritten))
       = (Inr (Some [18, 20, 19, 21]), 22)
   \<and> length two_towers_rewritten = 18"
  by code_simp

subsection \<open>The value that \<open>run\<close> returns\<close>

text \<open>
  C1.  The three kinds of result on the example graph: \<open>None\<close>, and not the empty set,
  when relocation is switched off and when the graph is found rewritten; the set of the
  added operations otherwise.
\<close>

theorem run_result_kinds:
  "fst (run example_re example_TOPOS 100 (default_lms\<lparr>n_tensors := 0\<rparr>) (Some example_graph)) = Inr None
   \<and> fst (run example_re example_TOPOS 100 (default_lms\<lparr>starting_op_names := Some [''fw/conv'']\<rparr>)
            (Some example_rewritten)) = Inr None
   \<and> apsnd G (run example_re example_TOPOS 100 default_lms (Some example_graph))
       = (Inr (Some [7, 8, 9, 10, 11]), example_rewritten)"
  by code_simp

section \<open>The relocations read no excluded operation\<close>

subsection \<open>The graph editor and the invariant\<close>

lemma nth_reroute_t:
  "c < length g \<Longrightarrow>
   reroute_t cm t0 t1 g ! c
     = (if t0 \<noteq> t1 \<and> c \<in> set cm then replace_input t0 t1 (g ! c) else g ! c)"
  by (simp add: reroute_t_def)

lemma length_reroute_t [simp]: "length (reroute_t cm t0 t1 g) = length g"
  by (simp add: reroute_t_def)

lemma inputs_replace_input:
  "set (op_inputs (replace_input t0 t1 n)) \<subseteq> insert t0 (set (op_inputs n))"
  by (auto simp: replace_input_def)

lemma graph_inv_append:
  assumes "graph_inv n0 R0 E0 g" and "op_inputs n = [ts0]" and "allowed_src n0 R0 E0 (fst ts0)"
  shows "graph_inv n0 R0 E0 (g @ [n])"
proof -
  from assms(1) have len: "n0 \<le> length g" by (simp add: graph_inv_def)
  have nth: "(g @ [n]) ! c = (if c < length g then g ! c else n)" if "c < Suc (length g)" for c
    using that by (auto simp: nth_append less_Suc_eq)
  show ?thesis
    unfolding graph_inv_def
  proof (intro conjI allI impI ballI)
    show "n0 \<le> length (g @ [n])" using len by simp
  next
    fix c t
    assume c: "c < length (g @ [n])" and t: "t \<in> set (op_inputs ((g @ [n]) ! c))"
      and r: "in_reach n0 R0 (fst t)"
    show "in_reach n0 R0 c"
    proof (cases "c < length g")
      case True
      with c t nth [of c] have "t \<in> set (op_inputs (g ! c))" by simp
      with assms(1) True r show ?thesis unfolding graph_inv_def by blast
    next
      case False
      with c len have "n0 \<le> c" by simp
      then show ?thesis by (simp add: in_reach_def)
    qed
  next
    fix q t
    assume q: "q < length (g @ [n])" "n0 \<le> q" and t: "t \<in> set (op_inputs ((g @ [n]) ! q))"
    show "allowed_src n0 R0 E0 (fst t)"
    proof (cases "q < length g")
      case True
      with q t nth [of q] have "t \<in> set (op_inputs (g ! q))" by simp
      with assms(1) True q(2) show ?thesis unfolding graph_inv_def by blast
    next
      case False
      with q t nth [of q] have "t = ts0" by (simp add: assms(2))
      with assms(3) show ?thesis by simp
    qed
  qed
qed

lemma graph_inv_reroute_t:
  assumes "graph_inv n0 R0 E0 g" and "allowed_src n0 R0 E0 (fst t0)"
    and "\<forall>c\<in>set cm. in_reach n0 R0 c"
  shows "graph_inv n0 R0 E0 (reroute_t cm t0 t1 g)"
  unfolding graph_inv_def
proof (intro conjI allI impI ballI)
  show "n0 \<le> length (reroute_t cm t0 t1 g)"
    using assms(1) by (simp add: graph_inv_def)
next
  fix c t
  assume c: "c < length (reroute_t cm t0 t1 g)"
    and t: "t \<in> set (op_inputs (reroute_t cm t0 t1 g ! c))"
    and r: "in_reach n0 R0 (fst t)"
  from c have c': "c < length g" by simp
  show "in_reach n0 R0 c"
  proof (cases "t0 \<noteq> t1 \<and> c \<in> set cm")
    case True
    with assms(3) show ?thesis by blast
  next
    case False
    with t c' have "t \<in> set (op_inputs (g ! c))" by (simp add: nth_reroute_t)
    with assms(1) c' r show ?thesis unfolding graph_inv_def by blast
  qed
next
  fix q t
  assume q: "q < length (reroute_t cm t0 t1 g)" "n0 \<le> q"
    and t: "t \<in> set (op_inputs (reroute_t cm t0 t1 g ! q))"
  from q have q': "q < length g" by simp
  from t q' inputs_replace_input [of t0 t1 "g ! q"]
  have "t = t0 \<or> t \<in> set (op_inputs (g ! q))"
    by (auto simp: nth_reroute_t split: if_splits)
  then show "allowed_src n0 R0 E0 (fst t)"
  proof
    assume "t = t0"
    with assms(2) show ?thesis by simp
  next
    assume "t \<in> set (op_inputs (g ! q))"
    with assms(1) q' q(2) show ?thesis unfolding graph_inv_def by blast
  qed
qed

lemma consumers_in_reach:
  assumes "graph_inv n0 R0 E0 g" and "in_reach n0 R0 (fst t)"
  shows "\<forall>c\<in>set (get_consuming_ops g t). in_reach n0 R0 c"
  using assms unfolding graph_inv_def get_consuming_ops_def by auto

lemma consumers_of_op_in_reach:
  assumes "graph_inv n0 R0 E0 g" and "in_reach n0 R0 p"
  shows "\<forall>c\<in>set (consumers_of_op g p). in_reach n0 R0 c"
proof
  fix c assume "c \<in> set (consumers_of_op g p)"
  then obtain t where "t \<in> set (outputs g p)" "c \<in> set (get_consuming_ops g t)"
    by (auto simp: consumers_of_op_def)
  moreover from this(1) have "fst t = p" by (auto simp: outputs_def)
  ultimately show "in_reach n0 R0 c"
    using consumers_in_reach [OF assms(1), of t] assms(2) by simp
qed

lemma fold_reroute_inv:
  assumes "graph_inv n0 R0 E0 g"
    and "\<forall>pr\<in>set prs. allowed_src n0 R0 E0 (fst (fst pr))"
    and "\<forall>c\<in>set cm. in_reach n0 R0 c"
  shows "graph_inv n0 R0 E0 (fold (\<lambda>(t0, t1). reroute_t cm t0 t1) prs g)"
  using assms(1,2)
proof (induction prs arbitrary: g)
  case Nil
  then show ?case by simp
next
  case (Cons pr prs)
  obtain t0 t1 where pr: "pr = (t0, t1)" by (cases pr)
  from Cons.prems(2) pr have "allowed_src n0 R0 E0 (fst t0)" by simp
  from graph_inv_reroute_t [OF Cons.prems(1) this assms(3), of t1]
  have "graph_inv n0 R0 E0 (reroute_t cm t0 t1 g)" .
  from Cons.IH [OF this] Cons.prems(2) show ?case by (simp add: pr)
qed

lemma graph_inv_ge_connect:
  assumes "graph_inv n0 R0 E0 g"
    and "\<forall>t0\<in>set ts0. allowed_src n0 R0 E0 (fst t0) \<and> in_reach n0 R0 (fst t0)"
    and "in_reach n0 R0 dest_op"
  shows "graph_inv n0 R0 E0 (ge_connect g ts0 dest_op ts1)"
proof -
  have cm: "\<forall>c\<in>set (dest_op # concat (map (get_consuming_ops g) ts0)). in_reach n0 R0 c"
    using assms(2,3) consumers_in_reach [OF assms(1)] by auto
  have "\<forall>pr\<in>set (zip ts0 ts1). allowed_src n0 R0 E0 (fst (fst pr))"
  proof
    fix pr assume "pr \<in> set (zip ts0 ts1)"
    then have "(fst pr, snd pr) \<in> set (zip ts0 ts1)" by simp
    then have "fst pr \<in> set ts0" by (rule set_zip_leftD)
    with assms(2) show "allowed_src n0 R0 E0 (fst (fst pr))" by blast
  qed
  from fold_reroute_inv [OF assms(1) this cm] show ?thesis
    by (simp add: ge_connect_def Let_def)
qed

lemma length_ge_connect [simp]: "length (ge_connect g ts0 dest_op ts1) = length g"
proof -
  have "length (fold (\<lambda>(t0, t1). reroute_t cm t0 t1) prs g) = length g" for cm prs
    by (induction prs arbitrary: g) (auto simp: case_prod_unfold)
  then show ?thesis by (simp add: ge_connect_def Let_def)
qed

lemma graph_inv_control:
  assumes "graph_inv n0 R0 E0 g" and "ge_add_control_inputs g p cop = Inr g'"
  shows "graph_inv n0 R0 E0 g'"
proof -
  from assms(2) have g': "g' = g[p := (g ! p)\<lparr>op_control_inputs := op_control_inputs (g ! p) @ [cop]\<rparr>]"
    by (simp add: ge_add_control_inputs_def split: if_splits)
  have "op_inputs (g' ! c) = op_inputs (g ! c)" if "c < length g" for c
    using that unfolding g' by (cases "c = p") simp_all
  moreover have "length g' = length g" unfolding g' by simp
  ultimately show ?thesis using assms(1) unfolding graph_inv_def by simp
qed


subsection \<open>The invariant of the object under the insertions\<close>

lemma set_set_add [simp]: "set (set_add x xs) = insert x (set xs)"
  by (auto simp: set_add_def)

lemma safeI:
  assumes "graph_inv n0 R0 E0 (G s')" and "\<And>x. r = Inr x \<Longrightarrow> state_inv n0 R0 E0 s'"
  shows "safe n0 R0 E0 (r, s')"
  using assms by (simp add: safe_def)

lemma safe_Inl: "graph_inv n0 R0 E0 (G s') \<Longrightarrow> safe n0 R0 E0 (Inl e, s')"
  by (simp add: safe_def)

lemma safe_Inr: "state_inv n0 R0 E0 s' \<Longrightarrow> safe n0 R0 E0 (Inr x, s')"
  by (simp add: safe_def state_inv_def)

lemma safe_graph: "safe n0 R0 E0 r \<Longrightarrow> graph_inv n0 R0 E0 (G (snd r))"
  by (simp add: safe_def)

lemma safe_state: "safe n0 R0 E0 (Inr x, s') \<Longrightarrow> state_inv n0 R0 E0 s'"
  by (simp add: safe_def)

lemma state_inv_graph: "state_inv n0 R0 E0 s \<Longrightarrow> graph_inv n0 R0 E0 (G s)"
  by (simp add: state_inv_def)

lemma state_inv_same_walks:
  assumes "state_inv n0 R0 E0 s" and "same_walks s s'"
  shows "state_inv n0 R0 E0 s'"
  using assms same_walks_G [OF assms(2)] same_walks_fields(2) [OF assms(2)]
  by (simp add: state_inv_def)

lemma state_inv_allowed:
  assumes "state_inv n0 R0 E0 s" and "in_reach n0 R0 p" and "p \<notin> set (excl_ops s)"
  shows "allowed_src n0 R0 E0 p"
  using assms unfolding state_inv_def allowed_src_def in_reach_def by auto

lemma new_allowed: "n0 \<le> p \<Longrightarrow> allowed_src n0 R0 E0 p"
  by (simp add: allowed_src_def)

lemma new_in_reach: "n0 \<le> p \<Longrightarrow> in_reach n0 R0 p"
  by (simp add: in_reach_def)

lemma connect_ops_fields [simp]:
  "excl_ops (connect_ops s src_op dest_op ri ro idx) = excl_ops s"
  "length (G (connect_ops s src_op dest_op ri ro idx)) = length (G s)"
  by (simp_all add: connect_ops_def Let_def)

lemma fst_sgv_outputs: "t \<in> set (sgv_outputs g p) \<Longrightarrow> fst t = p"
  by (auto simp: sgv_outputs_def outputs_def)

lemma connect_ops_graph_inv:
  assumes "graph_inv n0 R0 E0 (G s)" and "allowed_src n0 R0 E0 src_op"
    and "in_reach n0 R0 src_op" and "in_reach n0 R0 dest_op"
  shows "graph_inv n0 R0 E0 (G (connect_ops s src_op dest_op ri ro idx))"
proof -
  define ts0 where "ts0 = (if ro then take 1 (drop idx (sgv_outputs (G s) src_op))
                           else sgv_outputs (G s) src_op)"
  have "set ts0 \<subseteq> set (sgv_outputs (G s) src_op)"
    unfolding ts0_def by (auto dest: in_set_takeD in_set_dropD)
  then have "\<forall>t0\<in>set ts0. fst t0 = src_op" using fst_sgv_outputs by blast
  with assms(2,3) have "\<forall>t0\<in>set ts0. allowed_src n0 R0 E0 (fst t0) \<and> in_reach n0 R0 (fst t0)"
    by simp
  from graph_inv_ge_connect [OF assms(1) this assms(4)] show ?thesis
    by (simp add: connect_ops_def Let_def ts0_def)
qed

lemma tf_identity_eq:
  "tf_identity g dev ts0 nm =
     (g @ [\<lparr>op_name = unique_name g nm, op_type = ''Identity'', op_inputs = [ts0],
            op_control_inputs = [], op_noutputs = 1, op_device = dev\<rparr>], length g)"
  by (simp add: tf_identity_def)

lemma graph_inv_identity:
  assumes "graph_inv n0 R0 E0 g" and "allowed_src n0 R0 E0 (fst ts0)"
  shows "graph_inv n0 R0 E0 (fst (tf_identity g dev ts0 nm))"
proof -
  have "graph_inv n0 R0 E0
          (g @ [\<lparr>op_name = unique_name g nm, op_type = ''Identity'', op_inputs = [ts0],
                  op_control_inputs = [], op_noutputs = 1, op_device = dev\<rparr>])"
    by (rule graph_inv_append [OF assms(1) _ assms(2)]) simp
  then show ?thesis by (simp add: tf_identity_def)
qed

lemma tf_identity_simps [simp]:
  "snd (tf_identity g dev ts0 nm) = length g"
  "length (fst (tf_identity g dev ts0 nm)) = Suc (length g)"
  by (simp_all add: tf_identity_def)

lemma graph_inv_length: "graph_inv n0 R0 E0 g \<Longrightarrow> n0 \<le> length g"
  by (simp add: graph_inv_def)

lemma state_inv_add_new:
  assumes "graph_inv n0 R0 E0 (G s')" and "state_inv n0 R0 E0 s"
    and "length (G s') = Suc (length (G s))" and "excl_ops s' = excl_ops s"
  shows "state_inv n0 R0 E0 (s'\<lparr>excl_ops := set_add (length (G s)) (excl_ops s')\<rparr>)"
  using assms unfolding state_inv_def by (auto simp: less_Suc_eq)

lemma add_swapout_safe:
  assumes inv: "state_inv n0 R0 E0 s" and al: "allowed_src n0 R0 E0 src_op"
    and re: "in_reach n0 R0 src_op" and ts: "fst ts0 = src_op"
  shows "safe n0 R0 E0 (add_swapout s src_op ts0)"
    and "\<forall>so. fst (add_swapout s src_op ts0) = Inr so \<longrightarrow> n0 \<le> so"
proof -
  let ?g1 = "fst (tf_identity (G s) (cpu_device s) ts0 ''lms/swapout'')"
  let ?so = "length (G s)"
  let ?s1 = "set_G ?g1 s"
  from al ts have al0: "allowed_src n0 R0 E0 (fst ts0)" by simp
  have g1: "graph_inv n0 R0 E0 (G ?s1)"
    using graph_inv_identity [OF state_inv_graph [OF inv] al0] by simp
  have so: "n0 \<le> ?so" using graph_inv_length [OF state_inv_graph [OF inv]] .
  have len1: "length (G ?s1) = Suc (length (G s))" by simp
  show "safe n0 R0 E0 (add_swapout s src_op ts0)"
  proof (cases "index_of ts0 (sgv_outputs (G ?s1) src_op)")
    case None
    then have "add_swapout s src_op ts0 = (Inl (ValueError ''output_index''), ?s1)"
      by (simp add: add_swapout_def tf_identity_eq Let_def)
    with g1 show ?thesis by (simp add: safe_Inl)
  next
    case (Some idx)
    let ?s2 = "connect_ops ?s1 src_op ?so False True idx"
    have eq: "add_swapout s src_op ts0
        = (Inr ?so, ?s2\<lparr>excl_ops := set_add ?so (excl_ops ?s2)\<rparr>)"
      using Some by (simp add: add_swapout_def tf_identity_eq Let_def)
    have g2: "graph_inv n0 R0 E0 (G ?s2)"
      by (rule connect_ops_graph_inv [OF g1 al re new_in_reach [OF so]])
    have "state_inv n0 R0 E0 (?s2\<lparr>excl_ops := set_add ?so (excl_ops ?s2)\<rparr>)"
      by (rule state_inv_add_new [OF g2 inv]) (simp_all add: len1)
    then show ?thesis unfolding eq by (rule safe_Inr)
  qed
  show "\<forall>so. fst (add_swapout s src_op ts0) = Inr so \<longrightarrow> n0 \<le> so"
    using so by (auto simp: add_swapout_def tf_identity_eq Let_def split: option.splits)
qed

lemma add_swapin_safe:
  assumes inv: "state_inv n0 R0 E0 s" and so: "n0 \<le> swapout_op"
    and de: "in_reach n0 R0 dest_op" and al: "allowed_src n0 R0 E0 (fst ts0)"
  shows "safe n0 R0 E0 (add_swapin s swapout_op dest_op ts0)"
proof -
  let ?g1 = "fst (tf_identity (G s) (cpu_device s) ts0 ''lms/swapin'')"
  let ?si = "length (G s)"
  let ?s1 = "set_G ?g1 s"
  let ?s2 = "connect_ops ?s1 swapout_op ?si False False 0"
  have g1: "graph_inv n0 R0 E0 (G ?s1)"
    using graph_inv_identity [OF state_inv_graph [OF inv] al] by simp
  have si: "n0 \<le> ?si" using graph_inv_length [OF state_inv_graph [OF inv]] .
  have len1: "length (G ?s1) = Suc (length (G s))" by simp
  have g2: "graph_inv n0 R0 E0 (G ?s2)"
    by (rule connect_ops_graph_inv [OF g1 new_allowed [OF so] new_in_reach [OF so]
          new_in_reach [OF si]])
  show ?thesis
  proof (cases "index_of ts0 (sgv_inputs (G ?s2) dest_op)")
    case None
    then have "add_swapin s swapout_op dest_op ts0 = (Inl (ValueError ''input_index''), ?s2)"
      by (simp add: add_swapin_def tf_identity_eq Let_def)
    with g2 show ?thesis by (simp add: safe_Inl)
  next
    case (Some idx)
    let ?s3 = "connect_ops ?s2 ?si dest_op True False idx"
    have eq: "add_swapin s swapout_op dest_op ts0
        = (Inr ?si, ?s3\<lparr>excl_ops := set_add ?si (excl_ops ?s3)\<rparr>)"
      using Some by (simp add: add_swapin_def tf_identity_eq Let_def)
    have g3: "graph_inv n0 R0 E0 (G ?s3)"
      by (rule connect_ops_graph_inv [OF g2 new_allowed [OF si] new_in_reach [OF si] de])
    have "state_inv n0 R0 E0 (?s3\<lparr>excl_ops := set_add ?si (excl_ops ?s3)\<rparr>)"
      by (rule state_inv_add_new [OF g3 inv]) (simp_all add: len1)
    then show ?thesis unfolding eq by (rule safe_Inr)
  qed
qed


subsection \<open>The searches leave the graph alone\<close>

lemma do_direct_order_same_walks:
  "same_walks s (snd (do_direct_order T s fw_op src_op lower_b upper_b))"
proof -
  let ?r = "direct_order_scan T s src_op
              (direct_order_levels (get_order T fw_op) (get_order T src_op) lower_b upper_b)"
  have "snd (do_direct_order T s fw_op src_op lower_b upper_b) = snd ?r"
    by (simp add: do_direct_order_def Let_def case_prod_unfold split: list.splits)
  then show ?thesis using direct_order_scan_spec [of s T src_op] by simp
qed

lemma do_chain_rule_same_walks:
  "same_walks s (snd (do_chain_rule T fuel s fw_op bw_op lower_b upper_b))"
proof (cases "get_order T bw_op - lower_b < bw_starting_order T")
  case True
  then have "snd (do_chain_rule T fuel s fw_op bw_op lower_b upper_b)
      = snd (do_direct_order T s fw_op bw_op lower_b upper_b)"
    by (simp add: do_chain_rule_def Let_def case_prod_unfold)
  then show ?thesis using do_direct_order_same_walks [of s T fw_op bw_op lower_b upper_b] by simp
next
  case False
  then have "snd (do_chain_rule T fuel s fw_op bw_op lower_b upper_b) = s"
    by (simp add: do_chain_rule_def Let_def split: sum.splits list.splits)
  then show ?thesis by simp
qed

lemma find_control_dependency_same_walks:
  "same_walks s (snd (find_control_dependency T fuel s fw_op bw_op))"
proof -
  let ?l = "control_dependency_lb T s fw_op bw_op"
  have "snd (find_control_dependency T fuel s fw_op bw_op)
        = snd (do_direct_order T s fw_op bw_op ?l (ub s))
      \<or> snd (find_control_dependency T fuel s fw_op bw_op)
        = snd (do_chain_rule T fuel s fw_op bw_op ?l (ub s))"
    by (simp add: find_control_dependency_def Let_def case_prod_unfold
             split: CTRLD_Strategy.splits)
  then show ?thesis
    using do_direct_order_same_walks [of s T fw_op bw_op ?l "ub s"]
      do_chain_rule_same_walks [of s T fuel fw_op bw_op ?l "ub s"]
    by auto
qed

lemma add_control_dependency_safe:
  assumes "state_inv n0 R0 E0 s"
  shows "safe n0 R0 E0 (add_control_dependency T fuel s fw_op bw_op swapin_op)"
proof -
  define r where "r = fst (find_control_dependency T fuel s fw_op bw_op)"
  define s1 where "s1 = snd (find_control_dependency T fuel s fw_op bw_op)"
  have f: "find_control_dependency T fuel s fw_op bw_op = (r, s1)"
    by (simp add: r_def s1_def)
  have sw: "same_walks s s1"
    unfolding s1_def by (rule find_control_dependency_same_walks)
  from state_inv_same_walks [OF assms sw] have inv1: "state_inv n0 R0 E0 s1" .
  show ?thesis
  proof (cases r)
    case (Inl e)
    with f inv1 show ?thesis
      by (simp add: add_control_dependency_def safe_Inl state_inv_graph)
  next
    case (Inr re)
    obtain co ord where re: "re = (co, ord)" by (cases re)
    show ?thesis
    proof (cases co)
      case None
      with f Inr re inv1 show ?thesis
        by (simp add: add_control_dependency_def safe_Inr)
    next
      case (Some cop)
      show ?thesis
      proof (cases "ge_add_control_inputs (G s1) swapin_op cop")
        case (Inl e)
        with f Inr re Some inv1 show ?thesis
          by (simp add: add_control_dependency_def safe_Inl state_inv_graph)
      next
        case inr: (Inr g')
        from graph_inv_control [OF state_inv_graph [OF inv1] inr]
        have gi: "graph_inv n0 R0 E0 g'" .
        have len: "length g' = length (G s1)"
          using inr by (auto simp: ge_add_control_inputs_def split: if_splits)
        have "state_inv n0 R0 E0 (set_G g' s1)"
          using inv1 gi len unfolding state_inv_def by simp
        with f Inr re Some inr show ?thesis
          by (simp add: add_control_dependency_def safe_Inr)
      qed
    qed
  qed
qed


subsection \<open>The steps for one tensor\<close>

lemma safe_bind:
  assumes "safe n0 R0 E0 r"
    and "\<And>x s'. r = (Inr x, s') \<Longrightarrow> state_inv n0 R0 E0 s' \<Longrightarrow> safe n0 R0 E0 (k x s')"
  shows "safe n0 R0 E0 (case r of (Inl e, s') \<Rightarrow> (Inl e, s') | (Inr x, s') \<Rightarrow> k x s')"
proof -
  obtain a s' where r: "r = (a, s')" by (cases r)
  show ?thesis
  proof (cases a)
    case (Inl e)
    with assms(1) r show ?thesis by (simp add: safe_def)
  next
    case (Inr x)
    with assms(1) r have "state_inv n0 R0 E0 s'" by (simp add: safe_def)
    from assms(2) [OF _ this, of x] r Inr show ?thesis by simp
  qed
qed

lemma connect_ops_state_inv:
  assumes "state_inv n0 R0 E0 s" and "allowed_src n0 R0 E0 src_op"
    and "in_reach n0 R0 src_op" and "in_reach n0 R0 dest_op"
  shows "state_inv n0 R0 E0 (connect_ops s src_op dest_op ri ro idx)"
  using connect_ops_graph_inv [OF state_inv_graph [OF assms(1)] assms(2,3,4), of ri ro idx]
    assms(1)
  by (simp add: state_inv_def)

lemma fuse_connect_safe:
  assumes "state_inv n0 R0 E0 s" and "n0 \<le> swap_in" and "\<forall>p\<in>set ps. in_reach n0 R0 p"
  shows "safe n0 R0 E0 (fuse_connect s swap_in ts0 ps)"
  using assms(1,3)
proof (induction ps arbitrary: s)
  case Nil
  then show ?case by (simp add: safe_Inr)
next
  case (Cons p ps)
  show ?case
  proof (cases "index_of ts0 (sgv_inputs (G s) p)")
    case None
    with Cons.prems(1) show ?thesis by (simp add: safe_Inl state_inv_graph)
  next
    case (Some idx)
    from Cons.prems(2) have p: "in_reach n0 R0 p" and ps: "\<forall>q\<in>set ps. in_reach n0 R0 q"
      by simp_all
    have "state_inv n0 R0 E0 (connect_ops s swap_in p True False idx)"
      by (rule connect_ops_state_inv [OF Cons.prems(1) new_allowed [OF assms(2)]
            new_in_reach [OF assms(2)] p])
    from Cons.IH [OF this ps] Some show ?thesis by simp
  qed
qed

lemma fuse_swapin_ops_safe:
  assumes inv: "state_inv n0 R0 E0 s" and so: "n0 \<le> swapout_op"
    and bw: "\<forall>p\<in>set bw_frontier_ops. in_reach n0 R0 p" and al: "allowed_src n0 R0 E0 (fst ts0)"
  shows "safe n0 R0 E0 (fuse_swapin_ops T fuel s src_op swapout_op bw_frontier_ops ts0)"
proof -
  define fuse where "fuse = filter (\<lambda>p. get_order T p > 0) bw_frontier_ops"
  show ?thesis
  proof (cases "length fuse \<ge> 2")
    case False
    then show ?thesis
      using inv by (simp add: fuse_swapin_ops_def fuse_def [symmetric] safe_Inr)
  next
    case True
    let ?g1 = "fst (tf_identity (G s) (cpu_device s) ts0 ''lms/swapin'')"
    let ?si = "length (G s)"
    let ?s1 = "set_G ?g1 s"
    let ?s2 = "connect_ops ?s1 swapout_op ?si False False 0"
    let ?s3 = "?s2\<lparr>excl_ops := set_add ?si (excl_ops ?s2)\<rparr>"
    let ?rest = "set_diff bw_frontier_ops fuse"
    have g1: "graph_inv n0 R0 E0 (G ?s1)"
      using graph_inv_identity [OF state_inv_graph [OF inv] al] by simp
    have si: "n0 \<le> ?si" using graph_inv_length [OF state_inv_graph [OF inv]] .
    have g2: "graph_inv n0 R0 E0 (G ?s2)"
      by (rule connect_ops_graph_inv [OF g1 new_allowed [OF so] new_in_reach [OF so]
            new_in_reach [OF si]])
    have inv3: "state_inv n0 R0 E0 ?s3"
      by (rule state_inv_add_new [OF g2 inv]) simp_all
    have fu: "\<forall>p\<in>set fuse. in_reach n0 R0 p" using bw by (simp add: fuse_def)
    have eq: "fuse_swapin_ops T fuel s src_op swapout_op bw_frontier_ops ts0
        = (case fuse_connect ?s3 ?si ts0 fuse of
             (Inl e, s4) \<Rightarrow> (Inl e, s4)
           | (Inr u, s4) \<Rightarrow>
               (case earliest_loop T fuse (topo_size T + 1) None of
                  None \<Rightarrow> (Inr ?rest, s4)
                | Some earliest_op \<Rightarrow>
                    (case add_control_dependency T fuel s4 src_op earliest_op ?si of
                       (Inl e, s5) \<Rightarrow> (Inl e, s5)
                     | (Inr u, s5) \<Rightarrow> (Inr ?rest, s5))))"
      using True
      by (simp add: fuse_swapin_ops_def fuse_def [symmetric] tf_identity_eq Let_def)
    show ?thesis
      unfolding eq
    proof (rule safe_bind [OF fuse_connect_safe [OF inv3 si fu]])
      fix u s4
      assume inv4: "state_inv n0 R0 E0 s4"
      show "safe n0 R0 E0
          (case earliest_loop T fuse (topo_size T + 1) None of
             None \<Rightarrow> (Inr ?rest, s4)
           | Some earliest_op \<Rightarrow>
               (case add_control_dependency T fuel s4 src_op earliest_op ?si of
                  (Inl e, s5) \<Rightarrow> (Inl e, s5)
                | (Inr u, s5) \<Rightarrow> (Inr ?rest, s5)))"
      proof (cases "earliest_loop T fuse (topo_size T + 1) None")
        case None
        with inv4 show ?thesis by (simp add: safe_Inr)
      next
        case (Some e)
        have "safe n0 R0 E0
            (case add_control_dependency T fuel s4 src_op e ?si of
               (Inl e, s5) \<Rightarrow> (Inl e, s5)
             | (Inr u, s5) \<Rightarrow> (Inr ?rest, s5))"
          by (rule safe_bind [OF add_control_dependency_safe [OF inv4]]) (simp add: safe_Inr)
        with Some show ?thesis by simp
      qed
    qed
  qed
qed

lemma fuse_swapin_ops_rest:
  "fst (fuse_swapin_ops T fuel s src_op swapout_op bw_frontier_ops ts0) = Inr rest
   \<Longrightarrow> set rest \<subseteq> set bw_frontier_ops"
  by (auto simp: fuse_swapin_ops_def Let_def case_prod_unfold set_diff_def
           split: if_splits sum.splits option.splits)


lemma with_outgoing_ops_spec:
  "same_walks s (snd (with_outgoing_ops s ps)) \<and> set (fst (with_outgoing_ops s ps)) \<subseteq> set ps"
proof (induction ps arbitrary: s)
  case Nil
  show ?case by simp
next
  case (Cons p ps)
  let ?s1 = "snd (get_forward_walk_ops s p False)"
  have sw: "same_walks s ?s1" by (rule get_forward_walk_ops_same_walks)
  from Cons.IH [of ?s1] sw show ?case
    by (auto simp: case_prod_unfold Let_def intro: same_walks_trans)
qed

lemma get_branch_ops_subset: "set (get_branch_ops T within_ops threshold) \<subseteq> set within_ops"
  by (auto simp: get_branch_ops_def Let_def split: list.splits)

lemma bw_frontier_spec:
  "same_walks s (snd (bw_frontier T s t))
   \<and> set (fst (bw_frontier T s t)) \<subseteq> set (get_consuming_ops (G s) t)"
proof -
  define bw1 where "bw1 = (if swap_branches s
             then set_union (set_inter (get_consuming_ops (G s) t) (grad_ops s))
                    (get_branch_ops T (set_diff (get_consuming_ops (G s) t) (grad_ops s))
                       (branch_threshold s))
             else set_inter (get_consuming_ops (G s) t) (grad_ops s))"
  have "set bw1 \<subseteq> set (get_consuming_ops (G s) t)"
    using get_branch_ops_subset [of T "set_diff (get_consuming_ops (G s) t) (grad_ops s)"
        "branch_threshold s"]
    by (auto simp: bw1_def set_union_def set_inter_def set_diff_def)
  moreover have "bw_frontier T s t = with_outgoing_ops s bw1"
    by (simp add: bw_frontier_def Let_def bw1_def)
  ultimately show ?thesis using with_outgoing_ops_spec [of s bw1] by auto
qed

lemma state_inv_incpu:
  "state_inv n0 R0 E0 s \<Longrightarrow> state_inv n0 R0 E0 (s\<lparr>incpu_count := c\<rparr>)"
  by (simp add: state_inv_def)

lemma make_swapout_safe:
  assumes inv: "state_inv n0 R0 E0 s" and al: "allowed_src n0 R0 E0 src_op"
    and re: "in_reach n0 R0 src_op" and ts: "fst t = src_op"
  shows "safe n0 R0 E0 (make_swapout T s src_op t bw_frontier_ops)"
    and "\<forall>so. fst (make_swapout T s src_op t bw_frontier_ops) = Inr (Some so) \<longrightarrow> n0 \<le> so"
proof -
  obtain a s1 where r: "add_swapout s src_op t = (a, s1)" by (cases "add_swapout s src_op t")
  from add_swapout_safe [OF inv al re ts] r
  have sf: "safe n0 R0 E0 (a, s1)" and so: "\<forall>so. a = Inr so \<longrightarrow> n0 \<le> so" by simp_all
  show "safe n0 R0 E0 (make_swapout T s src_op t bw_frontier_ops)"
  proof (cases "list_ex (\<lambda>p. get_order T p \<ge> 0) bw_frontier_ops")
    case False
    with inv show ?thesis by (simp add: make_swapout_def safe_Inr)
  next
    case True
    show ?thesis
    proof (cases a)
      case (Inl e)
      with True r sf show ?thesis by (simp add: make_swapout_def safe_def)
    next
      case (Inr x)
      with sf have "state_inv n0 R0 E0 s1" by (simp add: safe_def)
      from state_inv_incpu [OF this] True r Inr show ?thesis
        by (simp add: make_swapout_def safe_Inr)
    qed
  qed
  show "\<forall>so. fst (make_swapout T s src_op t bw_frontier_ops) = Inr (Some so) \<longrightarrow> n0 \<le> so"
    using so r by (auto simp: make_swapout_def split: if_splits sum.splits)
qed

lemma fuse_step_safe:
  assumes inv: "state_inv n0 R0 E0 s" and so: "\<forall>so. swapout_op = Some so \<longrightarrow> n0 \<le> so"
    and bw: "\<forall>p\<in>set bw_frontier_ops. in_reach n0 R0 p" and al: "allowed_src n0 R0 E0 (fst t)"
  shows "safe n0 R0 E0 (fuse_step T fuel s src_op swapout_op bw_frontier_ops t)"
proof (cases swapout_op)
  case None
  with inv show ?thesis by (simp add: fuse_step_def safe_Inr)
next
  case (Some x)
  with so have "n0 \<le> x" by simp
  from fuse_swapin_ops_safe [OF inv this bw al] inv Some show ?thesis
    by (simp add: fuse_step_def safe_Inr)
qed

lemma fuse_step_rest:
  assumes "fst (fuse_step T fuel s src_op swapout_op bw_frontier_ops t) = Inr rest"
  shows "set rest \<subseteq> set bw_frontier_ops"
proof (cases swapout_op)
  case None
  with assms show ?thesis by (simp add: fuse_step_def)
next
  case (Some so)
  show ?thesis
  proof (cases "fuse_swapins s")
    case True
    with Some assms
    have "fst (fuse_swapin_ops T fuel s src_op so bw_frontier_ops t) = Inr rest"
      by (simp add: fuse_step_def)
    then show ?thesis by (rule fuse_swapin_ops_rest)
  next
    case False
    with Some assms show ?thesis by (simp add: fuse_step_def)
  qed
qed

lemma swapin_step_safe:
  assumes inv: "state_inv n0 R0 E0 s" and so: "\<forall>so. swapout_op = Some so \<longrightarrow> n0 \<le> so"
    and de: "in_reach n0 R0 dest_op" and al: "allowed_src n0 R0 E0 (fst t)"
  shows "safe n0 R0 E0 (swapin_step T fuel s src_op swapout_op dest_op t)"
proof (cases swapout_op)
  case None
  with inv show ?thesis by (simp add: swapin_step_def safe_Inl state_inv_graph)
next
  case (Some x)
  with so have x: "n0 \<le> x" by simp
  have "safe n0 R0 E0
      (case add_swapin s x dest_op t of
         (Inl e, s1) \<Rightarrow> (Inl e, s1)
       | (Inr swapin_op, s1) \<Rightarrow> add_control_dependency T fuel s1 src_op dest_op swapin_op)"
    by (rule safe_bind [OF add_swapin_safe [OF inv x de al]])
       (rule add_control_dependency_safe)
  with Some show ?thesis by (simp add: swapin_step_def)
qed

subsection \<open>New sources\<close>

lemma set_enqueue: "set (enqueue closed_set next_ops q) \<subseteq> set q \<union> set next_ops"
proof -
  define f where "f = (\<lambda>p q. if p \<in> set closed_set then q
                              else if p \<notin> set q then q @ [p] else (q :: opid list))"
  have step: "set (f a q) \<subseteq> insert a (set q)" for a q
    by (simp add: f_def subset_insertI)
  have "set (fold f ps q) \<subseteq> set q \<union> set ps" for ps q
  proof (induction ps arbitrary: q)
    case Nil
    show ?case by simp
  next
    case (Cons a ps)
    have "set (fold f (a # ps) q) \<subseteq> set (f a q) \<union> set ps"
      using Cons.IH [of "f a q"] by simp
    with step [of a q] show ?case by auto
  qed
  then show ?thesis by (simp add: enqueue_def f_def)
qed

lemma find_new_src_loop_in_reach:
  "graph_inv n0 R0 E0 g \<Longrightarrow>
   \<forall>p\<in>set open_set \<union> set src_ops. in_reach n0 R0 p \<Longrightarrow>
   find_new_src_loop g T k open_set closed_set src_ops = Inr r \<Longrightarrow>
   \<forall>p\<in>set r. in_reach n0 R0 p"
proof (induction g T k open_set closed_set src_ops rule: find_new_src_loop.induct)
  case (1 g T k closed_set src_ops)
  then show ?case by simp
next
  case (2 g T src_op open_set closed_set src_ops)
  then show ?case by simp
next
  case (3 g T k src_op open_set closed_set src_ops)
  define frontier where "frontier = consumers_of_op g src_op"
  define has_order where "has_order = filter (\<lambda>p. get_order T p > bw_starting_order T) frontier"
  define src_ops1 where "src_ops1 = (if has_order \<noteq> [] then set_add src_op src_ops else src_ops)"
  define q1 where "q1 = enqueue closed_set (set_diff frontier has_order) open_set"
  have eq: "find_new_src_loop g T (Suc k) (src_op # open_set) closed_set src_ops
      = find_new_src_loop g T k q1 (set_add src_op closed_set) src_ops1"
    by (simp add: Let_def frontier_def has_order_def src_ops1_def q1_def)
  from "3.prems"(2) have so: "in_reach n0 R0 src_op" by simp
  have fr: "\<forall>c\<in>set frontier. in_reach n0 R0 c"
    unfolding frontier_def by (rule consumers_of_op_in_reach [OF "3.prems"(1) so])
  have "set q1 \<subseteq> set open_set \<union> set frontier"
    unfolding q1_def using set_enqueue [of closed_set "set_diff frontier has_order" open_set]
    by (auto simp: set_diff_def)
  with fr "3.prems"(2) so have pre: "\<forall>p\<in>set q1 \<union> set src_ops1. in_reach n0 R0 p"
    by (auto simp: src_ops1_def)
  from "3.prems"(3) have fin: "find_new_src_loop g T k q1 (set_add src_op closed_set) src_ops1 = Inr r"
    unfolding eq .
  show ?case
    by (rule "3.IH" [OF frontier_def has_order_def src_ops1_def refl "3.prems"(1)
          pre [unfolded q1_def] fin [unfolded q1_def]])
qed


subsection \<open>The planner's step and its loop\<close>

lemma insert_for_new_srcs_safe:
  assumes self: "\<And>s p. state_inv n0 R0 E0 s \<Longrightarrow> in_reach n0 R0 p \<Longrightarrow> safe n0 R0 E0 (self_call s p)"
  shows "state_inv n0 R0 E0 s \<Longrightarrow> \<forall>p\<in>set ps. in_reach n0 R0 p \<Longrightarrow>
         safe n0 R0 E0 (insert_for_new_srcs self_call ps s)"
proof (induction ps arbitrary: s)
  case Nil
  then show ?case by (simp add: safe_Inr)
next
  case (Cons p ps)
  from Cons.prems(2) have p: "in_reach n0 R0 p" and ps: "\<forall>q\<in>set ps. in_reach n0 R0 q"
    by simp_all
  have "safe n0 R0 E0
      (case self_call s p of
         (Inl e, s1) \<Rightarrow> (Inl e, s1)
       | (Inr u, s1) \<Rightarrow> insert_for_new_srcs self_call ps s1)"
    by (rule safe_bind [OF self [OF Cons.prems(1) p]]) (rule Cons.IH [OF _ ps])
  then show ?case by simp
qed

lemma insert_for_dest_safe:
  assumes self: "\<And>s p. state_inv n0 R0 E0 s \<Longrightarrow> in_reach n0 R0 p \<Longrightarrow> safe n0 R0 E0 (self_call s p)"
    and inv: "state_inv n0 R0 E0 s" and so: "\<forall>so. swapout_op = Some so \<longrightarrow> n0 \<le> so"
    and de: "in_reach n0 R0 dest_op" and al: "allowed_src n0 R0 E0 (fst t)"
  shows "safe n0 R0 E0 (insert_for_dest self_call T fuel src_op swapout_op t dest_op s)"
proof (cases "get_order T dest_op < 0")
  case False
  with swapin_step_safe [OF inv so de al] show ?thesis
    by (simp add: insert_for_dest_def)
next
  case True
  show ?thesis
  proof (cases "src_op \<in> set (grad_ops s)")
    case g: True
    with True inv show ?thesis by (simp add: insert_for_dest_def safe_Inr)
  next
    case g: False
    show ?thesis
    proof (cases "find_new_src_op T fuel s dest_op")
      case (Inl e)
      with True g inv show ?thesis
        by (simp add: insert_for_dest_def safe_Inl state_inv_graph)
    next
      case (Inr new_src_ops)
      then have "find_new_src_loop (G s) T fuel [dest_op] [] [] = Inr new_src_ops"
        by (simp add: find_new_src_op_def)
      from find_new_src_loop_in_reach [OF state_inv_graph [OF inv] _ this] de
      have "\<forall>p\<in>set new_src_ops. in_reach n0 R0 p" by simp
      from insert_for_new_srcs_safe [OF self inv this] True g Inr show ?thesis
        by (simp add: insert_for_dest_def)
    qed
  qed
qed

lemma insert_for_dests_safe:
  assumes self: "\<And>s p. state_inv n0 R0 E0 s \<Longrightarrow> in_reach n0 R0 p \<Longrightarrow> safe n0 R0 E0 (self_call s p)"
    and so: "\<forall>so. swapout_op = Some so \<longrightarrow> n0 \<le> so" and al: "allowed_src n0 R0 E0 (fst t)"
  shows "state_inv n0 R0 E0 s \<Longrightarrow> \<forall>p\<in>set dests. in_reach n0 R0 p \<Longrightarrow>
         safe n0 R0 E0 (insert_for_dests self_call T fuel src_op swapout_op t dests s)"
proof (induction dests arbitrary: s)
  case Nil
  then show ?case by (simp add: safe_Inr)
next
  case (Cons d dests)
  from Cons.prems(2) have d: "in_reach n0 R0 d" and ds: "\<forall>q\<in>set dests. in_reach n0 R0 q"
    by simp_all
  have "safe n0 R0 E0
      (case insert_for_dest self_call T fuel src_op swapout_op t d s of
         (Inl e, s1) \<Rightarrow> (Inl e, s1)
       | (Inr u, s1) \<Rightarrow> insert_for_dests self_call T fuel src_op swapout_op t dests s1)"
  proof (rule safe_bind)
    show "safe n0 R0 E0 (insert_for_dest self_call T fuel src_op swapout_op t d s)"
      by (rule insert_for_dest_safe [OF _ Cons.prems(1) so d al]) (rule self)
  next
    fix u s1
    assume "state_inv n0 R0 E0 s1"
    then show "safe n0 R0 E0 (insert_for_dests self_call T fuel src_op swapout_op t dests s1)"
      by (rule Cons.IH [OF _ ds])
  qed
  then show ?case by simp
qed

lemma insert_for_output_safe:
  assumes self: "\<And>s p. state_inv n0 R0 E0 s \<Longrightarrow> in_reach n0 R0 p \<Longrightarrow> safe n0 R0 E0 (self_call s p)"
    and inv: "state_inv n0 R0 E0 s" and al: "allowed_src n0 R0 E0 src_op"
    and re: "in_reach n0 R0 src_op" and ts: "fst t = src_op"
  shows "safe n0 R0 E0 (insert_for_output self_call T fuel src_op t s)"
proof -
  define bw where "bw = fst (bw_frontier T s t)"
  define s1 where "s1 = snd (bw_frontier T s t)"
  have bf: "bw_frontier T s t = (bw, s1)" by (simp add: bw_def s1_def)
  have sw: "same_walks s s1" unfolding s1_def using bw_frontier_spec [of s T t] by blast
  have inv1: "state_inv n0 R0 E0 s1" by (rule state_inv_same_walks [OF inv sw])
  have alt: "allowed_src n0 R0 E0 (fst t)" using al ts by simp
  have "\<forall>c\<in>set (get_consuming_ops (G s) t). in_reach n0 R0 c"
    using consumers_in_reach [OF state_inv_graph [OF inv], of t] re ts by simp
  then have bwr: "\<forall>p\<in>set bw. in_reach n0 R0 p"
    unfolding bw_def using bw_frontier_spec [of s T t] by blast
  show ?thesis
  proof (cases bw)
    case Nil
    with bf inv1 show ?thesis by (simp add: insert_for_output_def safe_Inr)
  next
    case (Cons p ps)
    have eq: "insert_for_output self_call T fuel src_op t s
        = (case make_swapout T s1 src_op t bw of
             (Inl e, s2) \<Rightarrow> (Inl e, s2)
           | (Inr swapout_op, s2) \<Rightarrow>
               (case fuse_step T fuel s2 src_op swapout_op bw t of
                  (Inl e, s3) \<Rightarrow> (Inl e, s3)
                | (Inr bw_frontier_ops, s3) \<Rightarrow>
                    insert_for_dests self_call T fuel src_op swapout_op t bw_frontier_ops s3))"
      unfolding Cons using bf [unfolded Cons] by (simp add: insert_for_output_def)
    show ?thesis
      unfolding eq
    proof (rule safe_bind [OF make_swapout_safe(1) [OF inv1 al re ts]])
      fix swapout_op s2
      assume ms: "make_swapout T s1 src_op t bw = (Inr swapout_op, s2)"
        and inv2: "state_inv n0 R0 E0 s2"
      from make_swapout_safe(2) [OF inv1 al re ts, of T bw] ms
      have so: "\<forall>so. swapout_op = Some so \<longrightarrow> n0 \<le> so" by simp
      show "safe n0 R0 E0
          (case fuse_step T fuel s2 src_op swapout_op bw t of
             (Inl e, s3) \<Rightarrow> (Inl e, s3)
           | (Inr bw_frontier_ops, s3) \<Rightarrow>
               insert_for_dests self_call T fuel src_op swapout_op t bw_frontier_ops s3)"
      proof (rule safe_bind [OF fuse_step_safe [OF inv2 so bwr alt]])
        fix rest s3
        assume fs: "fuse_step T fuel s2 src_op swapout_op bw t = (Inr rest, s3)"
          and inv3: "state_inv n0 R0 E0 s3"
        from fs have "fst (fuse_step T fuel s2 src_op swapout_op bw t) = Inr rest" by simp
        from fuse_step_rest [OF this] bwr have "\<forall>p\<in>set rest. in_reach n0 R0 p" by blast
        from insert_for_dests_safe [OF self so alt inv3 this]
        show "safe n0 R0 E0 (insert_for_dests self_call T fuel src_op swapout_op t rest s3)" .
      qed
    qed
  qed
qed

lemma insert_for_outputs_safe:
  assumes self: "\<And>s p. state_inv n0 R0 E0 s \<Longrightarrow> in_reach n0 R0 p \<Longrightarrow> safe n0 R0 E0 (self_call s p)"
    and al: "allowed_src n0 R0 E0 src_op" and re: "in_reach n0 R0 src_op"
  shows "state_inv n0 R0 E0 s \<Longrightarrow> \<forall>t\<in>set ts. fst t = src_op \<Longrightarrow>
         safe n0 R0 E0 (insert_for_outputs self_call T fuel src_op ts s)"
proof (induction ts arbitrary: s)
  case Nil
  then show ?case by (simp add: safe_Inr)
next
  case (Cons t ts)
  from Cons.prems(2) have t: "fst t = src_op" and ts: "\<forall>u\<in>set ts. fst u = src_op"
    by simp_all
  show ?case
  proof (cases "swapped_max_tensors s")
    case True
    with Cons.prems(1) show ?thesis by (simp add: safe_Inr)
  next
    case False
    have "safe n0 R0 E0
        (case insert_for_output self_call T fuel src_op t s of
           (Inl e, s1) \<Rightarrow> (Inl e, s1)
         | (Inr u, s1) \<Rightarrow> insert_for_outputs self_call T fuel src_op ts s1)"
    proof (rule safe_bind)
      show "safe n0 R0 E0 (insert_for_output self_call T fuel src_op t s)"
        by (rule insert_for_output_safe [OF _ Cons.prems(1) al re t]) (rule self)
    next
      fix u s1
      assume "state_inv n0 R0 E0 s1"
      then show "safe n0 R0 E0 (insert_for_outputs self_call T fuel src_op ts s1)"
        by (rule Cons.IH [OF _ ts])
    qed
    with False show ?thesis by simp
  qed
qed

lemma insert_swap_nodes_body_safe:
  assumes self: "\<And>s p. state_inv n0 R0 E0 s \<Longrightarrow> in_reach n0 R0 p \<Longrightarrow> safe n0 R0 E0 (self_call s p)"
    and inv: "state_inv n0 R0 E0 s" and re: "in_reach n0 R0 src_op"
  shows "safe n0 R0 E0 (insert_swap_nodes_body self_call T fuel s src_op)"
proof (cases "src_op \<in> set (excl_ops s)")
  case True
  with inv show ?thesis by (simp add: insert_swap_nodes_body_def safe_Inr)
next
  case False
  from state_inv_allowed [OF inv re False] have al: "allowed_src n0 R0 E0 src_op" .
  have "\<forall>t\<in>set (outputs (G s) src_op). fst t = src_op" by (auto simp: outputs_def)
  from insert_for_outputs_safe [OF self al re inv this] inv False show ?thesis
    by (simp add: insert_swap_nodes_body_def safe_Inr)
qed

lemma insert_swap_nodes_safe:
  "state_inv n0 R0 E0 s \<Longrightarrow> in_reach n0 R0 src_op \<Longrightarrow>
   safe n0 R0 E0 (insert_swap_nodes T fuel d s src_op)"
proof (induction d arbitrary: s src_op)
  case 0
  then show ?case by (simp add: safe_Inl state_inv_graph)
next
  case (Suc d)
  have "safe n0 R0 E0 (insert_swap_nodes_body (insert_swap_nodes T fuel d) T fuel s src_op)"
    by (rule insert_swap_nodes_body_safe [OF Suc.IH Suc.prems])
  then show ?case by simp
qed

lemma do_action_loop_safe:
  "state_inv n0 R0 E0 s \<Longrightarrow> \<forall>p\<in>set open_set. in_reach n0 R0 p \<Longrightarrow>
   safe n0 R0 E0 (do_action_loop T fuel k s open_set closed_set)"
proof (induction k arbitrary: s open_set closed_set)
  case 0
  then show ?case
    by (cases open_set) (simp_all add: safe_Inr safe_Inl state_inv_graph)
next
  case (Suc k)
  show ?case
  proof (cases open_set)
    case Nil
    with Suc.prems(1) show ?thesis by (simp add: safe_Inr)
  next
    case (Cons src_op rest)
    with Suc.prems(2) have so: "in_reach n0 R0 src_op" and rs: "\<forall>p\<in>set rest. in_reach n0 R0 p"
      by simp_all
    define next_ops where "next_ops = set_diff (consumers_of_op (G s) src_op) (grad_ops s)"
    have nx: "\<forall>p\<in>set next_ops. in_reach n0 R0 p"
      using consumers_of_op_in_reach [OF state_inv_graph [OF Suc.prems(1)] so]
      by (simp add: next_ops_def set_diff_def)
    have q: "\<forall>p\<in>set (enqueue closed_set next_ops rest). in_reach n0 R0 p"
      using set_enqueue [of closed_set next_ops rest] rs nx by blast
    have eq: "do_action_loop T fuel (Suc k) s open_set closed_set
        = (case insert_swap_nodes T fuel fuel s src_op of
             (Inl e, s1) \<Rightarrow> (Inl e, s1)
           | (Inr u, s1) \<Rightarrow>
               (if swapped_max_tensors s1 then (Inr (), s1)
                else do_action_loop T fuel k s1 (enqueue closed_set next_ops rest)
                       (set_add src_op closed_set)))"
      unfolding next_ops_def Cons by (simp add: Let_def)
    show ?thesis
      unfolding eq
    proof (rule safe_bind [OF insert_swap_nodes_safe [OF Suc.prems(1) so]])
      fix u s1
      assume inv1: "state_inv n0 R0 E0 s1"
      from Suc.IH [OF inv1 q] inv1
      show "safe n0 R0 E0
          (if swapped_max_tensors s1 then (Inr (), s1)
           else do_action_loop T fuel k s1 (enqueue closed_set next_ops rest)
                  (set_add src_op closed_set))"
        by (simp add: safe_Inr)
    qed
  qed
qed


subsection \<open>Forward walks are closed under consumers\<close>

lemma forward_waves_closed:
  "set wave \<subseteq> set result \<Longrightarrow>
   \<forall>p\<in>set result - set wave. set (consumers_of_op g p) \<subseteq> set result \<Longrightarrow>
   set result \<subseteq> set (forward_waves g [] result wave)
   \<and> (\<forall>p\<in>set (forward_waves g [] result wave).
         set (consumers_of_op g p) \<subseteq> set (forward_waves g [] result wave))"
proof (induction g "[] :: opid list" result wave rule: forward_waves.induct)
  case (1 g result wave)
  show ?case
  proof (cases "wave = []")
    case True
    with "1.prems" show ?thesis by (simp add: forward_waves.simps)
  next
    case False
    define nw where "nw = next_wave g [] result wave"
    have nw: "set nw = (\<Union>p\<in>set wave. set (consumers_of_op g p)) - set result"
      by (auto simp: nw_def next_wave_def is_within_def)
    have eq: "forward_waves g [] result wave = forward_waves g [] (result @ nw) nw"
      using False unfolding nw_def by (subst forward_waves.simps) simp
    have a: "set nw \<subseteq> set (result @ nw)" by simp
    have b: "\<forall>p\<in>set (result @ nw) - set nw. set (consumers_of_op g p) \<subseteq> set (result @ nw)"
    proof
      fix p
      assume "p \<in> set (result @ nw) - set nw"
      then have p: "p \<in> set result" by auto
      show "set (consumers_of_op g p) \<subseteq> set (result @ nw)"
      proof (cases "p \<in> set wave")
        case True
        then show ?thesis using nw by auto
      next
        case False
        with p "1.prems"(2) show ?thesis by auto
      qed
    qed
    from "1.hyps" [OF False a [unfolded nw_def] b [unfolded nw_def]]
    show ?thesis unfolding eq nw_def by auto
  qed
qed

lemma walk_closed:
  "set seed_ops \<subseteq> set (ge_get_forward_walk_ops g seed_ops [] True)
   \<and> (\<forall>p\<in>set (ge_get_forward_walk_ops g seed_ops [] True).
         set (consumers_of_op g p) \<subseteq> set (ge_get_forward_walk_ops g seed_ops [] True))"
  using forward_waves_closed [of "remdups seed_ops" "remdups seed_ops" g]
  by (simp add: ge_get_forward_walk_ops_def Let_def)

lemma consumers_of_op_iff:
  "c \<in> set (consumers_of_op g p)
   \<longleftrightarrow> c < length g \<and> (\<exists>i<op_noutputs (g ! p). (p, i) \<in> set (op_inputs (g ! c)))"
  by (auto simp: consumers_of_op_def outputs_def get_consuming_ops_def)

text \<open>Before the planner: nothing is new, and the walk from the seeds is closed.\<close>

lemma graph_inv_start:
  assumes wf: "wf_graph g"
    and cl: "\<forall>p\<in>set R0. set (consumers_of_op g p) \<subseteq> set R0"
  shows "graph_inv (length g) R0 E0 g"
proof -
  have "in_reach (length g) R0 c"
    if c: "c < length g" and t: "t \<in> set (op_inputs (g ! c))" and r: "in_reach (length g) R0 (fst t)"
    for c t
  proof -
    from c have "g ! c \<in> set g" by simp
    with wf t have lt: "fst t < length g" "snd t < op_noutputs (g ! fst t)"
      unfolding wf_graph_def list_all_iff by blast+
    with r have "fst t \<in> set R0" by (simp add: in_reach_def)
    moreover have "c \<in> set (consumers_of_op g (fst t))"
      unfolding consumers_of_op_iff using c t lt(2) by (intro conjI exI [of _ "snd t"]) simp_all
    ultimately show ?thesis using cl by (auto simp: in_reach_def)
  qed
  then show ?thesis unfolding graph_inv_def by auto
qed

lemma filter_scopes_and_types_types:
  assumes "filter_scopes_and_types rx g within_ops scopes types = Inr r"
    and "p \<in> set within_ops" and "op_type (g ! p) \<in> set types"
  shows "p \<in> set r"
  using assms
  by (auto simp: filter_scopes_and_types_def Let_def set_union_def
           split: sum.splits if_splits)

lemma do_action_safe:
  "state_inv n0 R0 E0 s \<Longrightarrow> \<forall>p\<in>set src_ops. in_reach n0 R0 p \<Longrightarrow>
   safe n0 R0 E0 (do_action T fuel s src_ops)"
  unfolding do_action_def by (rule do_action_loop_safe)

lemma reads_no_atomic_refl: "reads_no_atomic g g"
  by (simp add: reads_no_atomic_def)

lemma run_rewrite_reads:
  assumes Gs: "G s = g" and wf: "wf_graph g"
    and cl: "\<forall>p\<in>set R0. set (consumers_of_op g p) \<subseteq> set R0"
    and seeds: "set seed_ops \<subseteq> set R0"
    and at: "set ATOMIC_TYPES \<subseteq> set (excl_types s)"
  shows "reads_no_atomic g (G (snd (run_rewrite rx TOPOS fuel s seed_ops R0)))"
proof (cases "filter_scopes_and_types rx g R0 (excl_scopes s) (excl_types s)")
  case (Inl e)
  then show ?thesis by (simp add: run_rewrite_def Gs reads_no_atomic_refl)
next
  case (Inr excl)
  define s1 where "s1 = s\<lparr>excl_ops := excl\<rparr>"
  have G1: "G s1 = g" by (simp add: s1_def Gs)
  show ?thesis
  proof (cases "filter_scopes_and_types rx g R0 (incl_scopes s1) (incl_types s1)")
    case (Inl e)
    with Inr show ?thesis
      by (simp add: run_rewrite_def Gs s1_def [symmetric] G1 reads_no_atomic_refl)
  next
    case incl: (Inr incl)
    define s2 where "s2 = s1\<lparr>incl_ops := incl\<rparr>"
    define T where "T = TOPOS (G s2) seed_ops (grad_ops s2)"
    define r where "r = do_action T fuel s2 seed_ops"
    have G2: "G s2 = g" by (simp add: s2_def G1)
    have ex2: "excl_ops s2 = excl" by (simp add: s2_def s1_def)
    have inv: "state_inv (length g) R0 excl s2"
      unfolding state_inv_def G2 ex2 using graph_inv_start [OF wf cl] by simp
    have "safe (length g) R0 excl r"
      unfolding r_def using inv seeds by (intro do_action_safe) (auto simp: in_reach_def)
    then have gi: "graph_inv (length g) R0 excl (G (snd r))" by (simp add: safe_def)
    have sr: "G (snd (run_rewrite rx TOPOS fuel s seed_ops R0)) = G (snd r)"
      using Inr incl
      by (simp add: run_rewrite_def Gs s1_def [symmetric] G1 s2_def [symmetric] Let_def
            T_def [symmetric] r_def [symmetric] split: prod.splits sum.splits)
    show ?thesis
      unfolding sr reads_no_atomic_def
    proof (intro allI impI ballI)
      fix q t
      assume q: "q < length (G (snd r))" "length g \<le> q"
        and t: "t \<in> set (op_inputs (G (snd r) ! q))" and lt: "fst t < length g"
      from gi q t have "allowed_src (length g) R0 excl (fst t)"
        unfolding graph_inv_def by blast
      with lt have m: "fst t \<in> set R0" "fst t \<notin> set excl" by (simp_all add: allowed_src_def)
      show "op_type (g ! fst t) \<notin> set ATOMIC_TYPES"
      proof
        assume "op_type (g ! fst t) \<in> set ATOMIC_TYPES"
        with at have "op_type (g ! fst t) \<in> set (excl_types s)" by blast
        from filter_scopes_and_types_types [OF Inr m(1) this] m(2) show False by simp
      qed
    qed
  qed
qed

lemma init_fields:
  assumes "init a = Inr s"
  shows "ops_dict s = []" "set ATOMIC_TYPES \<subseteq> set (excl_types s)"
  using assms by (auto simp: init_def set_union_def split: if_splits)

lemma run_reads:
  assumes fresh: "ops_dict s = []" and at: "set ATOMIC_TYPES \<subseteq> set (excl_types s)"
    and wf: "wf_graph g"
  shows "reads_no_atomic g (G (snd (run rx TOPOS fuel s (Some g))))"
proof (cases "n_tensors s = 0")
  case True
  then show ?thesis by (simp add: run_def reads_no_atomic_refl)
next
  case False
  define s0 where "s0 = run_state s g"
  have r: "run rx TOPOS fuel s (Some g) = run_on_graph rx TOPOS fuel s0"
    unfolding s0_def using False by (rule run_head)
  have g0: "graph s0 = Some g" and f0: "ops_dict s0 = []"
    unfolding s0_def by (simp_all add: run_state_fields fresh)
  have e0: "excl_types s0 = excl_types s" by (simp add: s0_def run_state_def)
  from g0 f0 show ?thesis
  proof (cases rule: run_on_graph_steps [where rx = rx and TOPOS = TOPOS and fuel = fuel])
    case (grad_error e s1)
    then show ?thesis by (simp add: r G_def reads_no_atomic_refl)
  next
    case (seed_error e s1)
    then show ?thesis by (simp add: r G_def reads_no_atomic_refl)
  next
    case (seeds s1 seed_ops reachable_ops s2 gr d)
    have G2: "G s2 = g" by (simp add: seeds(2,6) G_def g0)
    have e2: "excl_types s2 = excl_types s" by (simp add: seeds(2,6) e0)
    show ?thesis
    proof (cases "already_updated g reachable_ops")
      case True
      with seeds(10) G2 show ?thesis by (simp add: r reads_no_atomic_refl)
    next
      case nu: False
      have cl: "\<forall>p\<in>set reachable_ops. set (consumers_of_op g p) \<subseteq> set reachable_ops"
        unfolding seeds(7) using walk_closed [of _ g] by blast
      have sd: "set seed_ops \<subseteq> set reachable_ops"
        unfolding seeds(7) using walk_closed [of _ g] by fastforce
      from run_rewrite_reads [OF G2 wf cl sd, of rx TOPOS fuel] at nu seeds(10)
      show ?thesis by (simp add: r e2)
    qed
  qed
qed

subsection \<open>Operations of an atomic type\<close>

text \<open>
  C9.  The claim is that no output of an operation of an atomic type is ever swapped out.
  The program fails it on the second run of an object.  The object below names its
  starting operation and may relocate five tensors; its first run rewrites the example
  graph as every run does.  Its second run, on the rewritten graph, finds in the memo
  table the forward walk of the starting operation as it was before the first run, with no
  swap operation in it: the graph is not found rewritten, \<open>excl_ops\<close> is assigned anew from
  that walk and has lost the swap operations, and the planner swaps out the outputs of the
  swap-in operations 8, 9 and 11, whose type is \<^verbatim>\<open>Identity\<close>, an atomic type: the new
  operations 12, 14 and 16 read them.
\<close>

theorem second_run_relocates_atomic:
  "run example_re example_TOPOS 100 named_lms (Some example_graph)
     = (Inr (Some [7, 8, 9, 10, 11]), named_lms_after_run)
   \<and> apsnd G (run example_re example_TOPOS 100 named_lms_after_run None)
       = (Inr (Some [7, 8, 9, 10, 12, 14, 11, 13, 15, 16, 17]), example_rewritten_twice)
   \<and> map (\<lambda>p. op_type (example_rewritten ! p)) [8, 9, 11] = [''Identity'', ''Identity'', ''Identity'']
   \<and> ''Identity'' \<in> set ATOMIC_TYPES
   \<and> map (\<lambda>q. (op_name (example_rewritten_twice ! q), op_inputs (example_rewritten_twice ! q)))
         [12, 14, 16]
       = [(''lms/swapout_2'', [(8, 0)]), (''lms/swapout_3'', [(9, 0)]), (''lms/swapout_4'', [(11, 0)])]"
  by code_simp

text \<open>
  On the first run of a newly built object the property holds.  Whatever the arguments of
  the constructor are, the include sets among them, no operation that the run creates
  reads an output of an operation of the given graph whose type is one of \<open>ATOMIC_TYPES\<close>:
  no swap-out node is inserted for such an output, and no other node either.  This holds
  for every outcome of the run, an error included.  The graph is the one passed to \<open>run\<close>
  or, without one, the one passed to the constructor, and every input of the graph is an
  output of one of its operations.
\<close>

theorem atomic_outputs_not_relocated:
  assumes "init a = Inr s"
    and "graph_arg = Some g \<or> (graph_arg = None \<and> arg_graph a = Some g)"
    and "wf_graph g"
    and "length g \<le> q" and "q < length (G (snd (run rx TOPOS fuel s graph_arg)))"
    and "t \<in> set (op_inputs (G (snd (run rx TOPOS fuel s graph_arg)) ! q))"
    and "fst t < length g"
  shows "op_type (g ! fst t) \<notin> set ATOMIC_TYPES"
proof -
  have "run rx TOPOS fuel s graph_arg = run rx TOPOS fuel s (Some g)"
  proof (cases "graph_arg = Some g")
    case True
    then show ?thesis by simp
  next
    case False
    with assms(2) have n: "graph_arg = None" and "arg_graph a = Some g" by simp_all
    with assms(1) have "graph s = Some g" by (auto simp: init_def split: if_splits)
    then have "s\<lparr>graph := Some g\<rparr> = s" by simp
    then show ?thesis by (simp add: run_def n)
  qed
  with run_reads [OF init_fields [OF assms(1)] assms(3), of rx TOPOS fuel]
  have "reads_no_atomic g (G (snd (run rx TOPOS fuel s graph_arg)))" by simp
  with assms(4-7) show ?thesis unfolding reads_no_atomic_def by blast
qed

text \<open>
  The example graph and the default arguments: the swap-out node 7 reads the output of
  \<^verbatim>\<open>fw/conv\<close>, a convolution.
\<close>

theorem atomic_outputs_not_relocated_witness:
  "init default_args = Inr default_lms \<and> wf_graph example_graph
   \<and> G (snd (run example_re example_TOPOS 100 default_lms (Some example_graph))) = example_rewritten
   \<and> (0, 0) \<in> set (op_inputs (example_rewritten ! 7))
   \<and> op_type (example_graph ! 0) \<notin> set ATOMIC_TYPES"
proof -
  have a: "init default_args = Inr default_lms" by code_simp
  have b: "wf_graph example_graph" by code_simp
  have c: "G (snd (run example_re example_TOPOS 100 default_lms (Some example_graph))) = example_rewritten"
    by code_simp
  have d: "(0, 0) \<in> set (op_inputs (example_rewritten ! 7))" by code_simp
  have e: "length example_graph \<le> 7" "7 < length example_rewritten"
    "fst (0 :: nat, 0 :: nat) < length example_graph"
    by (simp_all add: example_graph_def example_rewritten_def)
  from atomic_outputs_not_relocated [OF a _ b e(1) _ _ e(3), of "Some example_graph" example_re example_TOPOS 100]
    c d e(2)
  have "op_type (example_graph ! 0) \<notin> set ATOMIC_TYPES" by simp
  with a b c d show ?thesis by blast
qed
section \<open>The fusion of swap-ins\<close>

subsection \<open>The insertions, exactly\<close>

lemma index_of_Some:
  "x \<in> set xs \<Longrightarrow> \<exists>i. index_of x xs = Some i \<and> i < length xs \<and> xs ! i = x"
  by (induction xs) auto

lemma take_drop_index:
  "i < length xs \<Longrightarrow> take (Suc 0) (drop i xs) = [xs ! i]"
  by (simp add: Cons_nth_drop_Suc [symmetric])

lemma wf_graphD:
  assumes "wf_graph g" and "c < length g" and "u \<in> set (op_inputs (g ! c))"
  shows "fst u < length g"
proof -
  from assms(2) have "g ! c \<in> set g" by simp
  with assms(1,3) show ?thesis unfolding wf_graph_def list_all_iff by blast
qed

lemma reroute_t_same [simp]: "reroute_t cm t t g = g"
  by (simp add: reroute_t_def)

lemma ge_connect_single:
  "ge_connect g [t0] dest_op [t1]
     = reroute_t (dest_op # get_consuming_ops g t0) t0 t1 g"
  by (simp add: ge_connect_def)

lemma tf_identity_node:
  "tf_identity g dev t nm = (g @ [identity_node g dev t nm], length g)"
  by (simp add: tf_identity_def identity_node_def)

lemma get_consuming_ops_append1:
  "get_consuming_ops (g @ [nd]) u
     = get_consuming_ops g u @ (if u \<in> set (op_inputs nd) then [length g] else [])"
proof -
  have "filter (\<lambda>c. u \<in> set (op_inputs ((g @ [nd]) ! c))) [0..<length g]
      = filter (\<lambda>c. u \<in> set (op_inputs (g ! c))) [0..<length g]"
    by (rule filter_cong) (simp_all add: nth_append)
  then show ?thesis by (simp add: get_consuming_ops_def)
qed

lemma add_swapout_exact:
  assumes t: "t \<in> set (outputs (G s) src_op)" and lt: "src_op < length (G s)"
  shows "add_swapout s src_op t
     = (Inr (length (G s)),
        s\<lparr>graph := Some (G s @ [identity_node (G s) (cpu_device s) t ''lms/swapout'']),
          excl_ops := set_add (length (G s)) (excl_ops s)\<rparr>)"
proof -
  define g where "g = G s"
  define nd where "nd = identity_node g (cpu_device s) t ''lms/swapout''"
  define g1 where "g1 = g @ [nd]"
  have ft: "fst t = src_op" using t by (auto simp: outputs_def)
  have nth: "g1 ! src_op = g ! src_op" using lt by (simp add: g1_def g_def nth_append)
  have out: "outputs g1 src_op = outputs g src_op" by (simp add: outputs_def nth)
  have "length g \<in> set (get_consuming_ops g1 t)"
    unfolding g1_def get_consuming_ops_append1 by (simp add: nd_def identity_node_def)
  then have "get_consuming_ops g1 t \<noteq> [src_op]" using lt by (auto simp: g_def)
  with t have "t \<in> set (sgv_outputs g1 src_op)"
    by (simp add: sgv_outputs_def out g_def)
  from index_of_Some [OF this] obtain i where i: "index_of t (sgv_outputs g1 src_op) = Some i"
      "i < length (sgv_outputs g1 src_op)" "sgv_outputs g1 src_op ! i = t"
    by blast
  have ins: "sgv_inputs g1 (length g) = [t]"
    using lt ft by (auto simp: sgv_inputs_def g1_def nd_def identity_node_def g_def)
  have "connect_ops (set_G g1 s) src_op (length g) False True i = set_G g1 s"
    by (simp add: connect_ops_def Let_def take_drop_index [OF i(2)] i(3) ins
          ge_connect_single set_G_def)
  then show ?thesis
    by (simp add: add_swapout_def tf_identity_node g_def [symmetric] nd_def [symmetric]
          g1_def [symmetric] i(1) set_G_def)
qed

lemma replace_input_id:
  assumes "t1 \<notin> set (op_inputs n)"
  shows "replace_input t0 t1 n = n"
proof -
  have "map (\<lambda>t. if t = t1 then t0 else t) (op_inputs n) = op_inputs n"
    using assms by (intro map_idI) auto
  then show ?thesis by (simp add: replace_input_def)
qed

lemma replace_input_gone:
  "t0 \<noteq> t1 \<Longrightarrow> t1 \<notin> set (op_inputs (replace_input t0 t1 n))"
  by (auto simp: replace_input_def)

lemma replace_input_fields [simp]:
  "op_noutputs (replace_input t0 t1 n) = op_noutputs n"
  "op_name (replace_input t0 t1 n) = op_name n"
  "op_type (replace_input t0 t1 n) = op_type n"
  "op_control_inputs (replace_input t0 t1 n) = op_control_inputs n"
  by (simp_all add: replace_input_def)

lemma reroute_t_cong:
  assumes "\<forall>c<length g. t1 \<in> set (op_inputs (g ! c)) \<longrightarrow> (c \<in> set cm \<longleftrightarrow> c \<in> set cm')"
  shows "reroute_t cm t0 t1 g = reroute_t cm' t0 t1 g"
proof (rule nth_equalityI)
  show "length (reroute_t cm t0 t1 g) = length (reroute_t cm' t0 t1 g)" by simp
next
  fix c
  assume "c < length (reroute_t cm t0 t1 g)"
  then have c: "c < length g" by simp
  show "reroute_t cm t0 t1 g ! c = reroute_t cm' t0 t1 g ! c"
  proof (cases "t1 \<in> set (op_inputs (g ! c))")
    case True
    with assms c show ?thesis by (simp add: nth_reroute_t)
  next
    case False
    then show ?thesis using c by (simp add: nth_reroute_t replace_input_id)
  qed
qed

lemma reroute_t_none:
  assumes "\<forall>c\<in>set cm. c < length g \<longrightarrow> t1 \<notin> set (op_inputs (g ! c))"
  shows "reroute_t cm t0 t1 g = g"
proof (rule nth_equalityI)
  show "length (reroute_t cm t0 t1 g) = length g" by simp
next
  fix c
  assume "c < length (reroute_t cm t0 t1 g)"
  then have c: "c < length g" by simp
  with assms show "reroute_t cm t0 t1 g ! c = g ! c"
    by (auto simp: nth_reroute_t replace_input_id)
qed

lemma reroute_t_twice:
  assumes "t0 \<noteq> t1"
  shows "reroute_t cm' t0 t1 (reroute_t cm t0 t1 g) = reroute_t (cm @ cm') t0 t1 g"
proof (rule nth_equalityI)
  show "length (reroute_t cm' t0 t1 (reroute_t cm t0 t1 g)) = length (reroute_t (cm @ cm') t0 t1 g)"
    by simp
next
  fix c
  assume "c < length (reroute_t cm' t0 t1 (reroute_t cm t0 t1 g))"
  then have c: "c < length g" by simp
  have idem: "replace_input t0 t1 (replace_input t0 t1 n) = replace_input t0 t1 n" for n
    by (rule replace_input_id) (rule replace_input_gone [OF assms])
  from c assms show "reroute_t cm' t0 t1 (reroute_t cm t0 t1 g) ! c = reroute_t (cm @ cm') t0 t1 g ! c"
    by (auto simp: nth_reroute_t idem)
qed

lemma reroute_t_append1:
  "reroute_t cm t0 t1 (g @ [nd])
     = reroute_t cm t0 t1 g
       @ [if t0 \<noteq> t1 \<and> length g \<in> set cm then replace_input t0 t1 nd else nd]"
proof (rule nth_equalityI)
  show "length (reroute_t cm t0 t1 (g @ [nd]))
      = length (reroute_t cm t0 t1 g
          @ [if t0 \<noteq> t1 \<and> length g \<in> set cm then replace_input t0 t1 nd else nd])"
    by simp
next
  fix c
  assume "c < length (reroute_t cm t0 t1 (g @ [nd]))"
  then have c: "c < Suc (length g)" by simp
  show "reroute_t cm t0 t1 (g @ [nd]) ! c
      = (reroute_t cm t0 t1 g
          @ [if t0 \<noteq> t1 \<and> length g \<in> set cm then replace_input t0 t1 nd else nd]) ! c"
  proof (cases "c < length g")
    case True
    then show ?thesis by (simp add: nth_reroute_t nth_append)
  next
    case False
    with c have "c = length g" by simp
    then show ?thesis by (simp add: nth_reroute_t nth_append)
  qed
qed

lemma graph_of_G: "p < length (G s) \<Longrightarrow> graph s = Some (G s)"
  by (cases "graph s") (simp_all add: G_def)

lemma set_G_set_G [simp]: "set_G g (set_G g' s) = set_G g s"
  by (simp add: set_G_def)

lemma set_G_G: "p < length (G s) \<Longrightarrow> set_G (G s) s = s"
  using graph_of_G [of p s] by (simp add: set_G_def)

lemma fuse_connect_exact:
  "si < length (G s) \<Longrightarrow> op_noutputs (G s ! si) = 1 \<Longrightarrow> (si, 0) \<notin> set (op_inputs (G s ! si)) \<Longrightarrow>
   t \<noteq> (si, 0) \<Longrightarrow>
   \<forall>c\<in>set (get_consuming_ops (G s) (si, 0)). t \<notin> set (op_inputs (G s ! c)) \<Longrightarrow>
   distinct ps \<Longrightarrow>
   \<forall>p\<in>set ps. p < length (G s) \<and> p \<noteq> si \<and> fst t \<noteq> p \<and> t \<in> set (op_inputs (G s ! p)) \<Longrightarrow>
   fuse_connect s si t ps = (Inr (), set_G (reroute_t ps (si, 0) t (G s)) s)"
proof (induction ps arbitrary: s)
  case Nil
  have "reroute_t [] (si, 0) t (G s) = G s" by (rule reroute_t_none) simp
  with Nil.prems(1) show ?case by (simp add: set_G_G)
next
  case (Cons p ps)
  define g where "g = G s"
  note pr = Cons.prems [folded g_def]
  from pr(7) have p: "p < length g" "p \<noteq> si" "fst t \<noteq> p" "t \<in> set (op_inputs (g ! p))"
    by simp_all
  from p(3,4) have "t \<in> set (sgv_inputs g p)" by (simp add: sgv_inputs_def)
  from index_of_Some [OF this] obtain i where i: "index_of t (sgv_inputs g p) = Some i"
      "i < length (sgv_inputs g p)" "sgv_inputs g p ! i = t"
    by blast
  have outs: "sgv_outputs g si = [(si, 0)]"
    using pr(2,3) by (simp add: sgv_outputs_def outputs_def)
  define g1 where "g1 = reroute_t [p] (si, 0) t g"
  have "reroute_t (p # get_consuming_ops g (si, 0)) (si, 0) t g = g1"
    unfolding g1_def using pr(5) by (intro reroute_t_cong) (auto simp: get_consuming_ops_def)
  then have co: "connect_ops s si p True False i = set_G g1 s"
    by (simp add: connect_ops_def Let_def g_def [symmetric] outs take_drop_index [OF i(2)] i(3)
          ge_connect_single)
  have nth1: "g1 ! c = (if c = p then replace_input (si, 0) t (g ! c) else g ! c)"
    if "c < length g" for c
    using that pr(4) by (auto simp: g1_def nth_reroute_t)
  have G1: "G (set_G g1 s) = g1" by simp
  have a1: "si < length g1" using pr(1) by (simp add: g1_def)
  have a2: "op_noutputs (g1 ! si) = 1" using pr(1,2) p(2) by (simp add: nth1)
  have a3: "(si, 0) \<notin> set (op_inputs (g1 ! si))" using pr(1,3) p(2) by (simp add: nth1)
  have a5: "\<forall>c\<in>set (get_consuming_ops g1 (si, 0)). t \<notin> set (op_inputs (g1 ! c))"
  proof
    fix c
    assume "c \<in> set (get_consuming_ops g1 (si, 0))"
    then have c: "c < length g" "(si, 0) \<in> set (op_inputs (g1 ! c))"
      by (simp_all add: get_consuming_ops_def g1_def)
    show "t \<notin> set (op_inputs (g1 ! c))"
    proof (cases "c = p")
      case True
      with c(1) pr(4) show ?thesis by (simp add: nth1 replace_input_gone)
    next
      case False
      with c have "c \<in> set (get_consuming_ops g (si, 0))"
        by (simp add: nth1 get_consuming_ops_def)
      with pr(5) False c(1) show ?thesis by (simp add: nth1)
    qed
  qed
  from pr(6) have d: "distinct ps" "p \<notin> set ps" by simp_all
  have a7: "\<forall>q\<in>set ps. q < length g1 \<and> q \<noteq> si \<and> fst t \<noteq> q \<and> t \<in> set (op_inputs (g1 ! q))"
  proof
    fix q
    assume q: "q \<in> set ps"
    with pr(7) have "q < length g" "q \<noteq> si" "fst t \<noteq> q" "t \<in> set (op_inputs (g ! q))"
      by simp_all
    moreover from q d(2) have "q \<noteq> p" by blast
    ultimately show "q < length g1 \<and> q \<noteq> si \<and> fst t \<noteq> q \<and> t \<in> set (op_inputs (g1 ! q))"
      by (simp add: nth1) (simp add: g1_def)
  qed
  have "fuse_connect (set_G g1 s) si t ps
      = (Inr (), set_G (reroute_t ps (si, 0) t g1) (set_G g1 s))"
    by (rule Cons.IH [of "set_G g1 s", unfolded G1, OF a1 a2 a3 pr(4) a5 d(1) a7])
  also have "\<dots> = (Inr (), set_G (reroute_t (p # ps) (si, 0) t g) s)"
    using reroute_t_twice [OF pr(4) [symmetric], of ps "[p]" g] by (simp add: g1_def)
  finally show ?case
    using i(1) co by (simp add: g_def [symmetric])
qed

lemma earliest_loop_none:
  "\<forall>p\<in>set ps. \<not> get_order T p < m \<Longrightarrow> earliest_loop T ps m ea = ea"
  by (induction ps arbitrary: m ea) simp_all

lemma earliest_loop_min:
  "\<exists>p\<in>set ps. get_order T p < m \<Longrightarrow>
   \<exists>e. earliest_loop T ps m ea = Some e \<and> e \<in> set ps \<and> get_order T e < m
       \<and> (\<forall>p\<in>set ps. get_order T e \<le> get_order T p)"
proof (induction ps arbitrary: m ea)
  case Nil
  then show ?case by simp
next
  case (Cons p ps)
  show ?case
  proof (cases "get_order T p < m")
    case True
    show ?thesis
    proof (cases "\<exists>q\<in>set ps. get_order T q < get_order T p")
      case ex: True
      from Cons.IH [OF ex, of "Some p"] obtain e where
        e: "earliest_loop T ps (get_order T p) (Some p) = Some e" "e \<in> set ps"
           "get_order T e < get_order T p" "\<forall>q\<in>set ps. get_order T e \<le> get_order T q"
        by blast
      with True show ?thesis by auto
    next
      case False
      then have "earliest_loop T ps (get_order T p) (Some p) = Some p"
        by (intro earliest_loop_none) simp
      with True False show ?thesis by (auto simp: not_less)
    qed
  next
    case False
    with Cons.prems have ex: "\<exists>q\<in>set ps. get_order T q < m" by auto
    from Cons.IH [OF ex, of ea] obtain e where
      e: "earliest_loop T ps m ea = Some e" "e \<in> set ps"
         "get_order T e < m" "\<forall>q\<in>set ps. get_order T e \<le> get_order T q"
      by blast
    with False show ?thesis by auto
  qed
qed

lemma set_diff_filter: "set_diff xs (filter P xs) = filter (\<lambda>x. \<not> P x) xs"
  unfolding set_diff_def by (rule filter_cong) auto

lemma ge_add_control_inputs_inputs:
  "ge_add_control_inputs g p cop = Inr g' \<Longrightarrow> map op_inputs g' = map op_inputs g"
proof -
  assume a: "ge_add_control_inputs g p cop = Inr g'"
  then have g': "g' = g[p := (g ! p)\<lparr>op_control_inputs := op_control_inputs (g ! p) @ [cop]\<rparr>]"
    by (simp add: ge_add_control_inputs_def split: if_splits)
  show ?thesis
  proof (rule nth_equalityI)
    show "length (map op_inputs g') = length (map op_inputs g)" by (simp add: g')
  next
    fix i
    assume "i < length (map op_inputs g')"
    then have "i < length g" by (simp add: g')
    then show "map op_inputs g' ! i = map op_inputs g ! i"
      by (cases "i = p") (simp_all add: g')
  qed
qed

lemma add_control_dependency_inputs:
  "map op_inputs (G (snd (add_control_dependency T fuel s fw_op bw_op swapin_op)))
     = map op_inputs (G s)"
proof -
  obtain r s1 where f: "find_control_dependency T fuel s fw_op bw_op = (r, s1)"
    by (cases "find_control_dependency T fuel s fw_op bw_op")
  from find_control_dependency_same_walks [of s T fuel fw_op bw_op] f
  have G1: "G s1 = G s" by (simp add: same_walks_G)
  show ?thesis
  proof (cases r)
    case (Inl e)
    with f G1 show ?thesis by (simp add: add_control_dependency_def)
  next
    case (Inr re)
    obtain c ord where re: "re = (c, ord)" by (cases re)
    show ?thesis
    proof (cases c)
      case None
      with f Inr re G1 show ?thesis by (simp add: add_control_dependency_def)
    next
      case (Some cop)
      show ?thesis
      proof (cases "ge_add_control_inputs (G s1) swapin_op cop")
        case (Inl e)
        with f Inr re Some G1 show ?thesis by (simp add: add_control_dependency_def)
      next
        case g': (Inr g')
        from ge_add_control_inputs_inputs [OF g'] f Inr re Some G1 g' show ?thesis
          by (simp add: add_control_dependency_def)
      qed
    qed
  qed
qed

lemma fused_graph_reroute:
  assumes "fst t < length g"
  shows "fused_graph g dev t fused
     = reroute_t fused (Suc (length g), 0) t g
       @ [identity_node g dev t ''lms/swapout'',
          (identity_node (g @ [identity_node g dev t ''lms/swapout'']) dev t ''lms/swapin'')
            \<lparr>op_inputs := [(length g, 0)]\<rparr>]"
proof -
  from assms have "(Suc (length g), 0) \<noteq> t" by auto
  then show ?thesis by (auto simp: fused_graph_def reroute_t_def replace_input_def)
qed

lemma get_consuming_ops_append2:
  "get_consuming_ops (g @ [a, b]) u
     = get_consuming_ops g u @ (if u \<in> set (op_inputs a) then [length g] else [])
       @ (if u \<in> set (op_inputs b) then [Suc (length g)] else [])"
  using get_consuming_ops_append1 [of "g @ [a]" b u] get_consuming_ops_append1 [of g a u]
  by simp

lemma no_consumer_of_new:
  assumes "wf_graph g" and "length g \<le> k"
  shows "get_consuming_ops g (k, i) = []"
proof -
  have "(k, i) \<notin> set (op_inputs (g ! c))" if "c < length g" for c
    using wf_graphD [OF assms(1) that, of "(k, i)"] assms(2) by auto
  then show ?thesis by (simp add: get_consuming_ops_def filter_empty_conv)
qed

lemma fuse_swapin_ops_exact:
  assumes wf: "wf_graph (G s)" and ft: "fst t < length (G s)"
    and bw: "distinct bw"
      "\<forall>p\<in>set bw. p < length (G s) \<and> fst t \<noteq> p \<and> t \<in> set (op_inputs (G s ! p))"
    and two: "2 \<le> length (filter (\<lambda>p. 0 < get_order T p) bw)"
    and size: "\<forall>p\<in>set bw. get_order T p \<le> topo_size T"
  shows "\<exists>e. e \<in> set (filter (\<lambda>p. 0 < get_order T p) bw)
     \<and> (\<forall>p\<in>set (filter (\<lambda>p. 0 < get_order T p) bw). get_order T e \<le> get_order T p)
     \<and> fuse_swapin_ops T fuel (swapped_out s t) src_op (length (G s)) bw t
         = (case add_control_dependency T fuel
                   (fused_state s t (filter (\<lambda>p. 0 < get_order T p) bw))
                   src_op e (Suc (length (G s))) of
              (Inl er, s') \<Rightarrow> (Inl er, s')
            | (Inr u, s') \<Rightarrow> (Inr (filter (\<lambda>p. \<not> 0 < get_order T p) bw), s'))"
proof -
  define g where "g = G s"
  define n where "n = length g"
  define dev where "dev = cpu_device s"
  define fused where "fused = filter (\<lambda>p. 0 < get_order T p) bw"
  define so where "so = identity_node g dev t ''lms/swapout''"
  define si0 where "si0 = identity_node (g @ [so]) dev t ''lms/swapin''"
  define si where "si = si0\<lparr>op_inputs := [(n, 0)]\<rparr>"
  define s2 where "s2 = swapped_out s t"
  have G2: "G s2 = g @ [so]" and dev2: "cpu_device s2 = dev"
    by (simp_all add: s2_def swapped_out_def g_def so_def dev_def)
  have tn: "t \<noteq> (n, 0)" "t \<noteq> (Suc n, 0)" "(n, 0) \<noteq> t" using ft by (auto simp: n_def g_def)
  define g3 where "g3 = g @ [so] @ [si0]"
  have tf: "tf_identity (G s2) (cpu_device s2) t ''lms/swapin'' = (g3, Suc n)"
    by (simp add: tf_identity_node G2 dev2 g3_def si0_def n_def)
  have nth3: "g3 ! n = so" "g3 ! Suc n = si0"
    by (simp_all add: g3_def n_def nth_append)
  have outs: "sgv_outputs g3 n = [(n, 0)]"
    using tn by (simp add: sgv_outputs_def outputs_def nth3 so_def identity_node_def)
  have ftn: "fst t < n" using ft by (simp add: n_def g_def)
  have ins: "sgv_inputs g3 (Suc n) = [t]"
    using ftn by (auto simp: sgv_inputs_def nth3 si0_def identity_node_def)
  have c0: "get_consuming_ops g (k, 0) = []" if "n \<le> k" for k
    using no_consumer_of_new [OF wf, of k 0] that by (simp add: g_def n_def)
  have inp: "op_inputs so = [t]" "op_inputs si0 = [t]" "op_inputs si = [(n, 0)]"
    by (simp_all add: so_def si0_def si_def identity_node_def)
  have cons3: "get_consuming_ops g3 (n, 0) = []"
    unfolding g3_def append_Cons append_Nil get_consuming_ops_append2
    using tn by (simp add: c0 inp)
  define g4 where "g4 = g @ [so, si]"
  have r3: "reroute_t [Suc n] (n, 0) t g3 = g4"
  proof -
    have "reroute_t [Suc n] (n, 0) t g = g"
      by (rule reroute_t_none) (simp add: n_def)
    then have "reroute_t [Suc n] (n, 0) t (g @ [so]) = g @ [so]"
      by (simp add: reroute_t_append1 n_def)
    moreover have "replace_input (n, 0) t si0 = si"
      by (simp add: replace_input_def si_def si0_def identity_node_def)
    ultimately show ?thesis
      using tn reroute_t_append1 [of "[Suc n]" "(n, 0)" t "g @ [so]" si0]
      by (simp add: g3_def g4_def n_def)
  qed
  have co: "connect_ops (set_G g3 s2) n (Suc n) False False 0 = set_G g4 s2"
    by (simp add: connect_ops_def Let_def outs ins ge_connect_single cons3 r3)
  define s3 where "s3 = (set_G g4 s2)\<lparr>excl_ops := set_add (Suc n) (excl_ops s2)\<rparr>"
  have G3: "G s3 = g4" by (simp add: s3_def)
  have nth4: "g4 ! c = g ! c" if "c < n" for c
    using that by (simp add: g4_def n_def nth_append)
  have nth4n: "g4 ! n = so" "g4 ! Suc n = si"
    by (simp_all add: g4_def n_def nth_append)
  have len4: "length g4 = Suc (Suc n)" by (simp add: g4_def n_def)
  have cons4: "get_consuming_ops g4 (Suc n, 0) = []"
    unfolding g4_def get_consuming_ops_append2
    using tn by (simp add: c0 inp)
  have fd: "distinct fused" using bw(1) by (simp add: fused_def)
  have fp: "\<forall>p\<in>set fused. p < length g4 \<and> p \<noteq> Suc n \<and> fst t \<noteq> p \<and> t \<in> set (op_inputs (g4 ! p))"
  proof
    fix p
    assume "p \<in> set fused"
    then have "p \<in> set bw" by (simp add: fused_def)
    with bw(2) have "p < n" "fst t \<noteq> p" "t \<in> set (op_inputs (g ! p))"
      by (simp_all add: g_def n_def)
    then show "p < length g4 \<and> p \<noteq> Suc n \<and> fst t \<noteq> p \<and> t \<in> set (op_inputs (g4 ! p))"
      by (simp add: len4 nth4)
  qed
  have fc: "fuse_connect s3 (Suc n) t fused
      = (Inr (), set_G (reroute_t fused (Suc n, 0) t g4) s3)"
  proof -
    have a1: "Suc n < length g4" by (simp add: len4)
    have a2: "op_noutputs (g4 ! Suc n) = 1"
      by (simp add: nth4n si_def si0_def identity_node_def)
    have a3: "(Suc n, 0) \<notin> set (op_inputs (g4 ! Suc n))"
      by (simp add: nth4n si_def)
    have a5: "\<forall>c\<in>set (get_consuming_ops g4 (Suc n, 0)). t \<notin> set (op_inputs (g4 ! c))"
      by (simp add: cons4)
    show ?thesis
      by (rule fuse_connect_exact [of "Suc n" s3, unfolded G3, OF a1 a2 a3 tn(2) a5 fd fp])
  qed
  have fl: "\<forall>p\<in>set fused. p < n"
    using bw(2) by (auto simp: fused_def g_def n_def)
  have r4: "reroute_t fused (Suc n, 0) t g4 = fused_graph g dev t fused"
  proof -
    have nf: "n \<notin> set fused" "Suc n \<notin> set fused" using fl by auto
    have "reroute_t fused (Suc n, 0) t ((g @ [so]) @ [si])
        = (reroute_t fused (Suc n, 0) t g @ [so]) @ [si]"
      by (subst reroute_t_append1, subst reroute_t_append1) (simp add: nf n_def [symmetric])
    then have "reroute_t fused (Suc n, 0) t g4 = reroute_t fused (Suc n, 0) t g @ [so, si]"
      by (simp add: g4_def)
    also have "\<dots> = fused_graph g dev t fused"
      using fused_graph_reroute [of t g dev fused] ft
      by (simp add: g_def [symmetric] n_def [symmetric] so_def si_def si0_def)
    finally show ?thesis .
  qed
  define s4 where "s4 = set_G (fused_graph g dev t fused) s3"
  have s4: "s4 = fused_state s t fused"
    by (simp add: s4_def s3_def s2_def swapped_out_def fused_state_def set_G_def
          g_def [symmetric] dev_def [symmetric] n_def [symmetric])
  from two have ne: "\<exists>p\<in>set fused. get_order T p < topo_size T + 1"
  proof -
    from two have "fused \<noteq> []" by (auto simp: fused_def)
    then obtain p where p: "p \<in> set fused" by (cases fused) auto
    then have "p \<in> set bw" by (simp add: fused_def)
    with size have "get_order T p < topo_size T + 1" by auto
    with p show ?thesis by blast
  qed
  from earliest_loop_min [OF ne, of None] obtain e where
    e: "earliest_loop T fused (topo_size T + 1) None = Some e" "e \<in> set fused"
       "\<forall>p\<in>set fused. get_order T e \<le> get_order T p"
    by blast
  have rest: "set_diff bw fused = filter (\<lambda>p. \<not> 0 < get_order T p) bw"
    unfolding fused_def by (rule set_diff_filter)
  have "fuse_swapin_ops T fuel s2 src_op n bw t
      = (case add_control_dependency T fuel s4 src_op e (Suc n) of
           (Inl er, s') \<Rightarrow> (Inl er, s')
         | (Inr u, s') \<Rightarrow> (Inr (set_diff bw fused), s'))"
    using two
    by (simp add: fuse_swapin_ops_def Let_def fused_def [symmetric] tf co s3_def [symmetric]
          fc r4 s4_def [symmetric] e(1))
  then have "fuse_swapin_ops T fuel s2 src_op n bw t
      = (case add_control_dependency T fuel s4 src_op e (Suc n) of
           (Inl er, s') \<Rightarrow> (Inl er, s')
         | (Inr u, s') \<Rightarrow> (Inr (filter (\<lambda>p. \<not> 0 < get_order T p) bw), s'))"
    unfolding rest .
  with e(2,3) show ?thesis
    unfolding s4 s2_def fused_def n_def g_def by blast
qed

lemma with_outgoing_ops_distinct:
  "distinct ps \<Longrightarrow> distinct (fst (with_outgoing_ops s ps))"
proof (induction ps arbitrary: s)
  case Nil
  show ?case by simp
next
  case (Cons p ps)
  let ?s1 = "snd (get_forward_walk_ops s p False)"
  from Cons.prems have d: "distinct ps" "p \<notin> set ps" by simp_all
  from with_outgoing_ops_spec [of ?s1 ps] d(2)
  have "p \<notin> set (fst (with_outgoing_ops ?s1 ps))" by blast
  with Cons.IH [OF d(1), of ?s1] show ?case
    by (simp add: case_prod_unfold Let_def)
qed

lemma bw_frontier_distinct: "distinct (fst (bw_frontier T s t))"
proof -
  have d: "distinct (get_consuming_ops (G s) t)" by (simp add: get_consuming_ops_def)
  then have "distinct (set_inter (get_consuming_ops (G s) t) (grad_ops s))"
    by (simp add: set_inter_def)
  then have "distinct (if swap_branches s
             then set_union (set_inter (get_consuming_ops (G s) t) (grad_ops s))
                    (get_branch_ops T (set_diff (get_consuming_ops (G s) t) (grad_ops s))
                       (branch_threshold s))
             else set_inter (get_consuming_ops (G s) t) (grad_ops s))"
    by (auto simp: set_union_def)
  then show ?thesis
    unfolding bw_frontier_def Let_def by (rule with_outgoing_ops_distinct)
qed


subsection \<open>One swap-in operation for the fused consumers\<close>

text \<open>
  C5, as amended.  Let \<open>t\<close> be an output of \<open>src_op\<close> which \<open>src_op\<close> does not read itself, in
  a graph all of whose inputs are outputs of its operations, and let \<open>bw\<close> be the frontier
  that \<^verbatim>\<open>_insert_swap_nodes\<close> takes for \<open>t\<close>: its consumers in the backward phase (with
  \<^verbatim>\<open>swap_branches\<close>, the far branches of the forward phase too) that have outgoing
  operations.  Let fusion be enabled, let at least two operations of the frontier have an
  order above 0, and let no order exceed the size of the topological order.  Then the
  swap-out operation is created and, by the fusion, exactly one swap-in operation: the
  graph has two operations more, every operation of the frontier with an order above 0
  reads the output of the swap-in operation in each input slot where it read \<open>t\<close>, and no
  other input of any operation has changed.  The control dependency is looked for once,
  for the swap-in operation and with an operation of the lowest order among the fused ones
  as the target.  The operations of the frontier with the order 0 or without an order are
  not fused: they are what the fusion returns.
\<close>

theorem fused_swapin:
  assumes fr: "bw_frontier T s0 t = (bw, s)"
    and wf: "wf_graph (G s0)" and fuse: "fuse_swapins s0"
    and t: "t \<in> set (outputs (G s0) src_op)" and lt: "src_op < length (G s0)"
    and self: "t \<notin> set (op_inputs (G s0 ! src_op))"
    and two: "2 \<le> length (fusable T bw)"
    and size: "\<forall>p\<in>set bw. get_order T p \<le> topo_size T"
  shows "\<exists>e. e \<in> set (fusable T bw)
      \<and> (\<forall>p\<in>set (fusable T bw). get_order T e \<le> get_order T p)
      \<and> make_swapout T s src_op t bw = (Inr (Some (length (G s))), swapped_out s t)
      \<and> fuse_step T fuel (swapped_out s t) src_op (Some (length (G s))) bw t
          = (case add_control_dependency T fuel (fused_state s t (fusable T bw)) src_op e
                    (Suc (length (G s))) of
               (Inl er, s') \<Rightarrow> (Inl er, s')
             | (Inr u, s') \<Rightarrow> (Inr (filter (\<lambda>p. get_order T p \<le> 0) bw), s'))
      \<and> map op_inputs
            (G (snd (fuse_step T fuel (swapped_out s t) src_op (Some (length (G s))) bw t)))
          = map op_inputs (fused_graph (G s) (cpu_device s) t (fusable T bw))"
proof -
  from bw_frontier_spec [of s0 T t] fr
  have sw: "same_walks s0 s" and sub: "set bw \<subseteq> set (get_consuming_ops (G s0) t)"
    by simp_all
  have Gs: "G s = G s0" by (rule same_walks_G [OF sw])
  have fs: "fuse_swapins s" using same_walks_fields(8) [OF sw] fuse by simp
  have d: "distinct bw" using bw_frontier_distinct [of T s0 t] fr by simp
  have ft: "fst t = src_op" using t by (auto simp: outputs_def)
  have mem: "\<forall>p\<in>set bw. p < length (G s) \<and> fst t \<noteq> p \<and> t \<in> set (op_inputs (G s ! p))"
  proof
    fix p
    assume "p \<in> set bw"
    with sub have p: "p < length (G s0)" "t \<in> set (op_inputs (G s0 ! p))"
      by (auto simp: get_consuming_ops_def)
    with self have "p \<noteq> src_op" by auto
    with p ft show "p < length (G s) \<and> fst t \<noteq> p \<and> t \<in> set (op_inputs (G s ! p))"
      by (simp add: Gs)
  qed
  have wf': "wf_graph (G s)" and t': "t \<in> set (outputs (G s) src_op)"
    and lt': "src_op < length (G s)" and ftl: "fst t < length (G s)"
    using wf t lt ft by (simp_all add: Gs)
  have two': "2 \<le> length (filter (\<lambda>p. 0 < get_order T p) bw)"
    using two by (simp add: fusable_def)
  from two' have "filter (\<lambda>p. 0 < get_order T p) bw \<noteq> []" by auto
  then obtain p where "p \<in> set (filter (\<lambda>p. 0 < get_order T p) bw)"
    by (cases "filter (\<lambda>p. 0 < get_order T p) bw") auto
  then have p: "p \<in> set bw" "0 < get_order T p" by simp_all
  then have ex: "list_ex (\<lambda>p. get_order T p \<ge> 0) bw"
    unfolding list_ex_iff by (intro bexI [of _ p]) simp_all
  have ms: "make_swapout T s src_op t bw = (Inr (Some (length (G s))), swapped_out s t)"
    using ex by (simp add: make_swapout_def add_swapout_exact [OF t' lt'] swapped_out_def)
  have fsw: "fuse_swapins (swapped_out s t)" using fs by (simp add: swapped_out_def)
  have le: "(\<lambda>p. \<not> 0 < get_order T p) = (\<lambda>p. get_order T p \<le> 0)" by auto
  from fuse_swapin_ops_exact [OF wf' ftl d mem two' size, of fuel src_op]
  obtain e where e: "e \<in> set (fusable T bw)"
      "\<forall>p\<in>set (fusable T bw). get_order T e \<le> get_order T p"
      "fuse_swapin_ops T fuel (swapped_out s t) src_op (length (G s)) bw t
         = (case add_control_dependency T fuel (fused_state s t (fusable T bw)) src_op e
                   (Suc (length (G s))) of
              (Inl er, s') \<Rightarrow> (Inl er, s')
            | (Inr u, s') \<Rightarrow> (Inr (filter (\<lambda>p. get_order T p \<le> 0) bw), s'))"
    unfolding fusable_def [symmetric] le by blast
  from e(3) fsw
  have st: "fuse_step T fuel (swapped_out s t) src_op (Some (length (G s))) bw t
         = (case add_control_dependency T fuel (fused_state s t (fusable T bw)) src_op e
                   (Suc (length (G s))) of
              (Inl er, s') \<Rightarrow> (Inl er, s')
            | (Inr u, s') \<Rightarrow> (Inr (filter (\<lambda>p. get_order T p \<le> 0) bw), s'))"
    by (simp add: fuse_step_def)
  have "snd (fuse_step T fuel (swapped_out s t) src_op (Some (length (G s))) bw t)
      = snd (add_control_dependency T fuel (fused_state s t (fusable T bw)) src_op e
               (Suc (length (G s))))"
    unfolding st by (simp split: prod.splits sum.splits)
  then have "map op_inputs
            (G (snd (fuse_step T fuel (swapped_out s t) src_op (Some (length (G s))) bw t)))
          = map op_inputs (fused_graph (G s) (cpu_device s) t (fusable T bw))"
    by (simp add: add_control_dependency_inputs) (simp add: fused_state_def)
  with e(1,2) ms st show ?thesis by blast
qed

text \<open>
  The first example graph: \<^verbatim>\<open>gradients/conv_grad\<close> and \<^verbatim>\<open>gradients/bias_grad\<close>, the
  operations 3 and 4, are the frontier of the output of \<^verbatim>\<open>fw/conv\<close>.
\<close>

theorem fused_swapin_witness:
  "\<exists>e. e \<in> set (fusable six_topos [3, 4])
      \<and> (\<forall>p\<in>set (fusable six_topos [3, 4]). get_order six_topos e \<le> get_order six_topos p)
      \<and> make_swapout six_topos fuse_state_frontier 0 (0, 0) [3, 4]
          = (Inr (Some (length (G fuse_state_frontier))), swapped_out fuse_state_frontier (0, 0))
      \<and> fuse_step six_topos 100 (swapped_out fuse_state_frontier (0, 0)) 0
            (Some (length (G fuse_state_frontier))) [3, 4] (0, 0)
          = (case add_control_dependency six_topos 100
                    (fused_state fuse_state_frontier (0, 0) (fusable six_topos [3, 4])) 0 e
                    (Suc (length (G fuse_state_frontier))) of
               (Inl er, s') \<Rightarrow> (Inl er, s')
             | (Inr u, s') \<Rightarrow> (Inr (filter (\<lambda>p. get_order six_topos p \<le> 0) [3, 4]), s'))
      \<and> map op_inputs
            (G (snd (fuse_step six_topos 100 (swapped_out fuse_state_frontier (0, 0)) 0
                       (Some (length (G fuse_state_frontier))) [3, 4] (0, 0))))
          = map op_inputs
              (fused_graph (G fuse_state_frontier) (cpu_device fuse_state_frontier) (0, 0)
                 (fusable six_topos [3, 4]))"
proof -
  have a: "bw_frontier six_topos fuse_state (0, 0) = ([3, 4], fuse_state_frontier)"
    by code_simp
  have b: "wf_graph (G fuse_state)" by code_simp
  have c: "fuse_swapins fuse_state" by code_simp
  have d: "(0, 0) \<in> set (outputs (G fuse_state) 0)" by code_simp
  have e: "0 < length (G fuse_state)" by code_simp
  have f: "(0, 0) \<notin> set (op_inputs (G fuse_state ! 0))" by code_simp
  have g: "2 \<le> length (fusable six_topos [3, 4])" by code_simp
  have h: "\<forall>p\<in>set [3, 4]. get_order six_topos p \<le> topo_size six_topos" by code_simp
  show ?thesis by (rule fused_swapin [OF a b c d e f g h])
qed

text \<open>
  The claim as it was stated fails for a consumer without outgoing operations.  In the
  second example graph the output of \<^verbatim>\<open>fw/conv\<close> has two consumers in the backward phase,
  both with a level: \<^verbatim>\<open>gradients/conv_grad\<close> and \<^verbatim>\<open>gradients/bias_grad\<close>, the operations 3
  and 5.  The second one has no consumer of its own and is no part of the frontier.  With
  fusion enabled the run creates one swap-in operation for the output, the operation 7,
  and \<^verbatim>\<open>gradients/conv_grad\<close> reads it; \<^verbatim>\<open>gradients/bias_grad\<close> reads the output of
  \<^verbatim>\<open>fw/conv\<close> as before.
\<close>

theorem sink_consumer_not_rewired:
  "apsnd G (run example_re six_TOPOS 100 (default_lms\<lparr>fuse_swapins := True\<rparr>) (Some sink_graph))
     = (Inr (Some [6, 8, 7, 9]), sink_rewritten)
   \<and> get_consuming_ops sink_graph (0, 0) = [1, 3, 5]
   \<and> map (\<lambda>p. (op_name (sink_graph ! p), get_order six_topos p)) [3, 5]
       = [(''gradients/conv_grad'', 3), (''gradients/bias_grad'', 5)]
   \<and> op_inputs (sink_rewritten ! 3) = [(2, 0), (7, 0)]
   \<and> op_inputs (sink_rewritten ! 5) = [(2, 0), (0, 0)]
   \<and> op_inputs (sink_rewritten ! 7) = [(6, 0)]"
  by code_simp

end
